theory Spec2Isabelle
  imports Main "HOL-Library.Word" "HOL-Library.Signed_Division"
begin

unbundle bit_operations_syntax

section \<open>Machine types and buffers\<close>

text \<open>
  The C sources work on \<^verbatim>\<open>uint8_t\<close>, \<^verbatim>\<open>uint16_t\<close> and \<^verbatim>\<open>uint32_t\<close>; they are words here,
  so that every assignment to a \<^verbatim>\<open>uint16_t\<close> truncates as in C. A byte buffer is a list.
  Reading or writing past the end of a buffer is undefined behaviour in C; the model
  drops such a write (\<open>xs[i := v]\<close>) and copies, in \<open>memcpy\<close>, only the source bytes that
  exist. The theorems state the buffer sizes they rely on.
\<close>

type_synonym u8 = "8 word"
type_synonym u16 = "16 word"
type_synonym u32 = "32 word"

text \<open>\<^verbatim>\<open>memcpy(&dst[off], src, n)\<close>: \<open>memcpy dst off (take n src)\<close>, byte by byte.\<close>

fun memcpy :: "u8 list \<Rightarrow> nat \<Rightarrow> u8 list \<Rightarrow> u8 list" where
  "memcpy dst off [] = dst"
| "memcpy dst off (x # xs) = memcpy (dst[off := x]) (Suc off) xs"

section \<open>protocol.h / protocol.c: CRC16 and the frame codec\<close>

definition FRAME_HEAD_0 :: u8 where "FRAME_HEAD_0 = 0xAA"
definition FRAME_HEAD_1 :: u8 where "FRAME_HEAD_1 = 0x55"
definition FRAME_TAIL_0 :: u8 where "FRAME_TAIL_0 = 0x55"
definition FRAME_TAIL_1 :: u8 where "FRAME_TAIL_1 = 0xAA"
definition MAX_FRAME_SIZE :: nat where "MAX_FRAME_SIZE = 8192"

text \<open>One round of the inner loop of \<^verbatim>\<open>CRC16_Calc\<close>: test bit 0, shift right, xor 0xA001.\<close>

definition crc_shift :: "u16 \<Rightarrow> u16" where
  "crc_shift crc =
     (if crc AND 0x0001 \<noteq> 0 then drop_bit 1 crc XOR 0xA001 else drop_bit 1 crc)"

text \<open>The inner loop \<^verbatim>\<open>for (j = 0; j < 8; j++)\<close>, counted down.\<close>

fun crc_bits :: "nat \<Rightarrow> u16 \<Rightarrow> u16" where
  "crc_bits 0 crc = crc"
| "crc_bits (Suc j) crc = crc_bits j (crc_shift crc)"

text \<open>The body of the outer loop for one byte \<^verbatim>\<open>data[i]\<close>.\<close>

definition crc_byte :: "u16 \<Rightarrow> u8 \<Rightarrow> u16" where
  "crc_byte crc b = crc_bits 8 (crc XOR ucast b)"

text \<open>\<^verbatim>\<open>CRC16_Calc(data, length, initVal)\<close>: the outer loop runs over the first
  \<open>length\<close> bytes of \<open>data\<close>.\<close>

definition CRC16_Calc :: "u8 list \<Rightarrow> u16 \<Rightarrow> u16 \<Rightarrow> u16" where
  "CRC16_Calc data len initVal = foldl crc_byte initVal (take (unat len) data)"

datatype build_error = BufferTooSmall

text \<open>
  \<^verbatim>\<open>buildFrame\<close>. \<open>payload = None\<close> is the NULL pointer. The result is
  \<open>Inl BufferTooSmall\<close> for the return value -1 (nothing written), and for 0 the output
  buffer with the new value of \<^verbatim>\<open>*outBufLen\<close>. \<open>lengthField\<close>, \<open>totalFrameSize\<close> and
  \<open>offset\<close> are \<^verbatim>\<open>uint16_t\<close> and wrap.
\<close>

definition buildFrame ::
  "u8 \<Rightarrow> u8 \<Rightarrow> u8 list option \<Rightarrow> u16 \<Rightarrow> u8 list \<Rightarrow> u16 \<Rightarrow> build_error + (u8 list \<times> u16)" where
  "buildFrame commandID seq payload payloadLen outBuf outBufLen =
     (let lengthField = 1 + 1 + payloadLen + 2;
          totalFrameSize = 2 + 2 + lengthField + 2
      in if totalFrameSize > outBufLen then Inl BufferTooSmall
         else
           let b1 = outBuf[0 := FRAME_HEAD_0];
               b2 = b1[1 := FRAME_HEAD_1];
               b3 = b2[2 := ucast (lengthField AND 0xFF)];
               b4 = b3[3 := ucast (drop_bit 8 lengthField AND 0xFF)];
               b5 = b4[4 := commandID];
               b6 = b5[5 := seq];
               (b7, offset) =
                 (case payload of
                    Some p \<Rightarrow>
                      if payloadLen > 0
                      then (memcpy b6 6 (take (unat payloadLen) p), 6 + payloadLen)
                      else (b6, 6)
                  | None \<Rightarrow> (b6, 6));
               crc = CRC16_Calc (drop 4 b7) (2 + payloadLen) 0xFFFF;
               b8 = b7[unat offset := ucast (crc AND 0xFF)];
               b9 = b8[unat (offset + 1) := ucast (drop_bit 8 crc AND 0xFF)];
               b10 = b9[unat (offset + 2) := FRAME_TAIL_0];
               b11 = b10[unat (offset + 3) := FRAME_TAIL_1]
           in Inr (b11, offset + 4))"

datatype frame_error = HeaderMismatch | TailMismatch | LengthMismatch | ChecksumMismatch

text \<open>The \<^verbatim>\<open>int\<close> that \<^verbatim>\<open>parseFrame\<close> returns for each error.\<close>

fun error_code :: "frame_error \<Rightarrow> int" where
  "error_code HeaderMismatch = -1"
| "error_code TailMismatch = -2"
| "error_code LengthMismatch = -3"
| "error_code ChecksumMismatch = -4"

text \<open>
  The four output parameters of \<^verbatim>\<open>parseFrame\<close>. \<open>pPayload\<close> and \<open>pPayloadLen\<close> may be
  NULL (\<open>None\<close>); \<open>Some\<close> holds what the pointer points to.
\<close>

record parse_out =
  pCmd :: u8
  pSeq :: u8
  pPayload :: "u8 list option"
  pPayloadLen :: "u16 option"

text \<open>
  \<^verbatim>\<open>parseFrame\<close>. The output parameters are written before the checksum is compared,
  so the error result carries them too: \<open>Inl (e, out)\<close> is the return value
  \<open>error_code e\<close> with the output parameters as the call leaves them, \<open>Inr out\<close> is
  the return value 0. The payload is copied before the checksum is read. When the input
  has 8 or 9 bytes, \<open>payloadLen\<close> wraps to 65534 or 65535 and the \<^verbatim>\<open>memcpy\<close> into a non-NULL
  \<open>pPayload\<close> leaves the input: the model then copies the bytes that exist, and no theorem
  uses it there.
\<close>

definition parseFrame ::
  "u8 list \<Rightarrow> u16 \<Rightarrow> parse_out \<Rightarrow> (frame_error \<times> parse_out) + parse_out" where
  "parseFrame inBuf inLen out =
     (if inLen < 8 then Inl (LengthMismatch, out)
      else if inBuf ! 0 \<noteq> FRAME_HEAD_0 \<or> inBuf ! 1 \<noteq> FRAME_HEAD_1
        then Inl (HeaderMismatch, out)
      else if inBuf ! (unat inLen - 2) \<noteq> FRAME_TAIL_0 \<or> inBuf ! (unat inLen - 1) \<noteq> FRAME_TAIL_1
        then Inl (TailMismatch, out)
      else
        let lengthField = (ucast (inBuf ! 2) :: u16) OR push_bit 8 (ucast (inBuf ! 3) :: u16);
            expectedFrameSize = 6 + lengthField
        in if expectedFrameSize \<noteq> inLen then Inl (LengthMismatch, out)
           else
             let out1 = out\<lparr>pCmd := inBuf ! 4, pSeq := inBuf ! 5\<rparr>;
                 offset = (6 :: u16);
                 payloadLen = lengthField - 4;
                 out2 =
                   (case pPayload out1 of
                      Some dst \<Rightarrow>
                        if payloadLen > 0
                        then out1\<lparr>pPayload :=
                               Some (memcpy dst 0 (take (unat payloadLen) (drop (unat offset) inBuf)))\<rparr>
                        else out1
                    | None \<Rightarrow> out1);
                 out3 =
                   (case pPayloadLen out2 of
                      Some _ \<Rightarrow> out2\<lparr>pPayloadLen := Some payloadLen\<rparr>
                    | None \<Rightarrow> out2);
                 offset = offset + payloadLen;
                 recvCRC = (ucast (inBuf ! unat offset) :: u16)
                           OR push_bit 8 (ucast (inBuf ! unat (offset + 1)) :: u16);
                 calcCRC = CRC16_Calc (drop 4 inBuf) (2 + payloadLen) 0xFFFF
             in if recvCRC \<noteq> calcCRC then Inl (ChecksumMismatch, out3) else Inr out3)"

section \<open>io_buffer.h / io_buffer.c: the RX and TX ring buffers\<close>

definition RX_BUFFER_SIZE :: nat where "RX_BUFFER_SIZE = 65535"
definition TX_BUFFER_SIZE :: nat where "TX_BUFFER_SIZE = 65535"
definition MIN_FRAME_LEN :: u16 where "MIN_FRAME_LEN = 8"

text \<open>
  \<^verbatim>\<open>RxBuffer_t\<close> and \<^verbatim>\<open>TxBuffer_t\<close>: a byte array of the buffer size and two \<^verbatim>\<open>uint16_t\<close>
  cursors. An index expression such as \<^verbatim>\<open>(r->tail + 1) % RX_BUFFER_SIZE\<close> is computed in
  \<^verbatim>\<open>int\<close> and then stored in a \<^verbatim>\<open>uint16_t\<close>: the model computes it on \<open>nat\<close> (or on \<open>int\<close>
  with C's truncating remainder \<open>smod\<close> where the dividend can be negative) and converts
  back with \<open>of_nat\<close>, which truncates to 16 bits.
\<close>

record RxBuffer_t =
  rx_buf :: "u8 list"
  rx_head :: u16
  rx_tail :: u16

record TxBuffer_t =
  tx_buf :: "u8 list"
  tx_head :: u16
  tx_tail :: u16

definition initRxBuffer :: "RxBuffer_t \<Rightarrow> RxBuffer_t" where
  "initRxBuffer r = r\<lparr>rx_head := 0, rx_tail := 0\<rparr>"

definition rxBufferFreeSpace :: "RxBuffer_t \<Rightarrow> u16" where
  "rxBufferFreeSpace r =
     word_of_int ((uint (rx_head r) + int RX_BUFFER_SIZE - uint (rx_tail r) - 1) smod int RX_BUFFER_SIZE)"

text \<open>The body of the loop of \<^verbatim>\<open>feedRxBuffer\<close> for the byte \<^verbatim>\<open>data[i]\<close>.\<close>

definition rx_put :: "RxBuffer_t \<Rightarrow> u8 \<Rightarrow> RxBuffer_t" where
  "rx_put r x =
     r\<lparr>rx_buf := (rx_buf r)[unat (rx_tail r) := x],
       rx_tail := of_nat ((unat (rx_tail r) + 1) mod RX_BUFFER_SIZE)\<rparr>"

text \<open>\<^verbatim>\<open>feedRxBuffer\<close>: the ring after the call and the returned count \<open>toWrite\<close>.\<close>

definition feedRxBuffer :: "RxBuffer_t \<Rightarrow> u8 list \<Rightarrow> u16 \<Rightarrow> RxBuffer_t \<times> u16" where
  "feedRxBuffer r data len =
     (let freeSpace = rxBufferFreeSpace r;
          toWrite = (if len \<le> freeSpace then len else freeSpace)
      in (foldl rx_put r (take (unat toWrite) data), toWrite))"

text \<open>
  The scan loop of \<^verbatim>\<open>tryExtractOneFrame\<close>, with its local variables \<open>idx\<close> and
  \<open>available\<close> as arguments. \<open>None\<close> is the return value \<^verbatim>\<open>false\<close> (nothing is written);
  \<open>Some (outFrame, outFrameLen, r)\<close> is \<^verbatim>\<open>true\<close> with the frame copied to \<open>outFrame\<close>
  and the head advanced. \<open>frameSize\<close> is a \<^verbatim>\<open>uint16_t\<close> and wraps.
\<close>

function scan_frame ::
  "RxBuffer_t \<Rightarrow> u16 \<Rightarrow> u16 \<Rightarrow> u8 list \<Rightarrow> (u8 list \<times> u16 \<times> RxBuffer_t) option" where
  "scan_frame r idx available outFrame =
     (if available \<ge> MIN_FRAME_LEN then
        let b0 = rx_buf r ! unat idx;
            b1 = rx_buf r ! ((unat idx + 1) mod RX_BUFFER_SIZE)
        in if b0 = 0xAA \<and> b1 = 0x55 then
             if available < MIN_FRAME_LEN then None
             else
               let l0 = rx_buf r ! ((unat idx + 2) mod RX_BUFFER_SIZE);
                   l1 = rx_buf r ! ((unat idx + 3) mod RX_BUFFER_SIZE);
                   lengthField = (ucast l0 :: u16) OR push_bit 8 (ucast l1 :: u16);
                   frameSize = 2 + 2 + lengthField + 2
               in if unat frameSize > MAX_FRAME_SIZE
                  then scan_frame r (of_nat ((unat idx + 1) mod RX_BUFFER_SIZE)) (available - 1) outFrame
                  else if frameSize > available then None
                  else Some (foldl (\<lambda>out i. out[i := rx_buf r ! ((unat idx + i) mod RX_BUFFER_SIZE)])
                               outFrame [0..<unat frameSize],
                             frameSize,
                             r\<lparr>rx_head := of_nat ((unat idx + unat frameSize) mod RX_BUFFER_SIZE)\<rparr>)
           else scan_frame r (of_nat ((unat idx + 1) mod RX_BUFFER_SIZE)) (available - 1) outFrame
      else None)"
  by pat_completeness auto
termination
proof (relation "measure (\<lambda>(r, idx, available, outFrame). unat available)")
  have dec: "unat (a - 1) < unat a" if "MIN_FRAME_LEN \<le> a" for a :: u16
  proof -
    have "8 \<le> unat a" using that by (simp add: MIN_FRAME_LEN_def word_le_nat_alt)
    moreover have "1 \<le> a" using that by (simp add: MIN_FRAME_LEN_def word_le_nat_alt)
    ultimately show ?thesis by (simp add: unat_sub)
  qed
  show "wf (measure (\<lambda>(r, idx, available, outFrame). unat available))" by simp
  show "((r, of_nat ((unat idx + 1) mod RX_BUFFER_SIZE), available - 1, outFrame), r, idx, available, outFrame)
        \<in> measure (\<lambda>(r, idx, available, outFrame). unat available)"
    if "MIN_FRAME_LEN \<le> available"
    for r :: RxBuffer_t and idx available :: u16 and outFrame :: "u8 list"
    using dec[OF that] by simp
  then show "((r, of_nat ((unat idx + 1) mod RX_BUFFER_SIZE), available - 1, outFrame), r, idx, available, outFrame)
        \<in> measure (\<lambda>(r, idx, available, outFrame). unat available)"
    if "MIN_FRAME_LEN \<le> available"
    for r :: RxBuffer_t and idx available :: u16 and outFrame :: "u8 list"
    using that by simp
qed

declare scan_frame.simps [simp del]

definition tryExtractOneFrame ::
  "RxBuffer_t \<Rightarrow> u8 list \<Rightarrow> (u8 list \<times> u16 \<times> RxBuffer_t) option" where
  "tryExtractOneFrame r outFrame =
     (let available = (of_nat ((unat (rx_tail r) + RX_BUFFER_SIZE - unat (rx_head r)) mod RX_BUFFER_SIZE) :: u16)
      in if available < MIN_FRAME_LEN then None
         else scan_frame r (rx_head r) available outFrame)"

text \<open>
  \<^verbatim>\<open>tryParseFramesFromRx\<close>: the drain loop \<^verbatim>\<open>while (1)\<close>. The callback \<open>onFrame\<close> acts
  on a state \<open>'s\<close> of its own; \<open>tempFrame\<close> is the local array. The loop need not
  terminate (an extraction can succeed without moving the head), so the result is an
  option and \<open>None\<close> means that the call does not return.
\<close>

partial_function (option) tryParseFramesFromRx ::
  "('s \<Rightarrow> u8 list \<Rightarrow> u16 \<Rightarrow> 's) \<Rightarrow> RxBuffer_t \<Rightarrow> u8 list \<Rightarrow> 's \<Rightarrow> (RxBuffer_t \<times> 's) option" where
  "tryParseFramesFromRx onFrame r tempFrame s =
     (case tryExtractOneFrame r tempFrame of
        None \<Rightarrow> Some (r, s)
      | Some (tempFrame', frameLen, r') \<Rightarrow>
          tryParseFramesFromRx onFrame r' tempFrame' (onFrame s tempFrame' frameLen))"

definition initTxBuffer :: "TxBuffer_t \<Rightarrow> TxBuffer_t" where
  "initTxBuffer t = t\<lparr>tx_head := 0, tx_tail := 0\<rparr>"

definition txBufferFreeSpace :: "TxBuffer_t \<Rightarrow> u16" where
  "txBufferFreeSpace t =
     word_of_int ((uint (tx_head t) + int TX_BUFFER_SIZE - uint (tx_tail t) - 1) smod int TX_BUFFER_SIZE)"

text \<open>One store \<^verbatim>\<open>t->buf[t->tail] = x; t->tail = (t->tail + 1) % TX_BUFFER_SIZE\<close>.\<close>

definition tx_put :: "TxBuffer_t \<Rightarrow> u8 \<Rightarrow> TxBuffer_t" where
  "tx_put t x =
     t\<lparr>tx_buf := (tx_buf t)[unat (tx_tail t) := x],
       tx_tail := of_nat ((unat (tx_tail t) + 1) mod TX_BUFFER_SIZE)\<rparr>"

datatype tx_error = TxNoSpace

text \<open>
  \<^verbatim>\<open>enqueueTxFrame\<close>: \<open>Inl (TxNoSpace, t)\<close> is the return value -1 with the ring as the
  call leaves it, \<open>Inr t\<close> the return value 0. \<open>needed\<close> is a \<^verbatim>\<open>uint16_t\<close>: the sum
  \<open>frameLen + 2\<close> wraps.
\<close>

definition enqueueTxFrame ::
  "TxBuffer_t \<Rightarrow> u8 list \<Rightarrow> u16 \<Rightarrow> (tx_error \<times> TxBuffer_t) + TxBuffer_t" where
  "enqueueTxFrame t frame frameLen =
     (let needed = frameLen + 2
      in if needed > txBufferFreeSpace t then Inl (TxNoSpace, t)
         else
           let t1 = tx_put t (ucast (frameLen AND 0xFF));
               t2 = tx_put t1 (ucast (drop_bit 8 frameLen))
           in Inr (foldl tx_put t2 (take (unat frameLen) frame)))"

text \<open>One step \<^verbatim>\<open>t->head = (t->head + 1) % TX_BUFFER_SIZE\<close>.\<close>

definition tx_advance :: "TxBuffer_t \<Rightarrow> TxBuffer_t" where
  "tx_advance t = t\<lparr>tx_head := of_nat ((unat (tx_head t) + 1) mod TX_BUFFER_SIZE)\<rparr>"

text \<open>
  \<^verbatim>\<open>dequeueTxFrame\<close>: the returned length (0 for no data), the output buffer and the
  ring after the call.
\<close>

definition dequeueTxFrame :: "TxBuffer_t \<Rightarrow> u8 list \<Rightarrow> u16 \<Rightarrow> u16 \<times> u8 list \<times> TxBuffer_t" where
  "dequeueTxFrame t outFrame maxLen =
     (let available = (of_nat ((unat (tx_tail t) + TX_BUFFER_SIZE - unat (tx_head t)) mod TX_BUFFER_SIZE) :: u16)
      in if available < 2 then (0, outFrame, t)
         else
           let l0 = tx_buf t ! unat (tx_head t);
               t1 = tx_advance t;
               l1 = tx_buf t1 ! unat (tx_head t1);
               t2 = tx_advance t1;
               frameLen = (ucast l0 :: u16) OR push_bit 8 (ucast l1 :: u16);
               available = available - 2
           in if frameLen > available
              then (0, outFrame,
                    t2\<lparr>tx_head := of_nat ((unat (tx_head t2) + TX_BUFFER_SIZE - 2) mod TX_BUFFER_SIZE)\<rparr>)
              else
                let copyLen = (if frameLen \<le> maxLen then frameLen else maxLen);
                    (out, t3) = foldl (\<lambda>(out, t) i. (out[i := tx_buf t ! unat (tx_head t)], tx_advance t))
                                  (outFrame, t2) [0..<unat copyLen];
                    t4 = foldl (\<lambda>t i. tx_advance t) t3 [unat copyLen..<unat frameLen]
                in (frameLen, out, t4))"

section \<open>app.h / app.c: the device state engine\<close>

definition MAX_CHANNELS :: nat where "MAX_CHANNELS = 8"
definition DATA_PAYLOAD_SIZE :: nat where "DATA_PAYLOAD_SIZE = 2048"
definition TX_FRAME_BUF_SIZE :: nat where "TX_FRAME_BUF_SIZE = 8192"

definition CMD_PING :: u8 where "CMD_PING = 0x01"
definition CMD_PONG :: u8 where "CMD_PONG = 0x81"
definition CMD_GET_STATUS :: u8 where "CMD_GET_STATUS = 0x02"
definition CMD_STATUS_RESPONSE :: u8 where "CMD_STATUS_RESPONSE = 0x82"
definition CMD_GET_DEVICE_INFO :: u8 where "CMD_GET_DEVICE_INFO = 0x03"
definition CMD_DEVICE_INFO_RESPONSE :: u8 where "CMD_DEVICE_INFO_RESPONSE = 0x83"
definition CMD_SET_MODE_CONTINUOUS :: u8 where "CMD_SET_MODE_CONTINUOUS = 0x10"
definition CMD_SET_MODE_TRIGGER :: u8 where "CMD_SET_MODE_TRIGGER = 0x11"
definition CMD_START_STREAM :: u8 where "CMD_START_STREAM = 0x12"
definition CMD_STOP_STREAM :: u8 where "CMD_STOP_STREAM = 0x13"
definition CMD_CONFIGURE_STREAM :: u8 where "CMD_CONFIGURE_STREAM = 0x14"
definition CMD_ACK :: u8 where "CMD_ACK = 0x90"
definition CMD_NACK :: u8 where "CMD_NACK = 0x91"
definition CMD_DATA_PACKET :: u8 where "CMD_DATA_PACKET = 0x40"
definition CMD_REQUEST_BUFFERED_DATA :: u8 where "CMD_REQUEST_BUFFERED_DATA = 0x42"
definition CMD_BUFFER_TRANSFER_COMPLETE :: u8 where "CMD_BUFFER_TRANSFER_COMPLETE = 0x4F"

datatype device_mode_t = MODE_CONTINUOUS | MODE_TRIGGER
datatype stream_status_t = STATUS_STOPPED | STATUS_RUNNING

text \<open>The enumerators' values, as stored into a status byte.\<close>

fun mode_value :: "device_mode_t \<Rightarrow> u8" where
  "mode_value MODE_CONTINUOUS = 0"
| "mode_value MODE_TRIGGER = 1"

fun status_value :: "stream_status_t \<Rightarrow> u8" where
  "status_value STATUS_STOPPED = 0"
| "status_value STATUS_RUNNING = 1"

record channel_t =
  enabled :: u8
  sample_rate :: u32
  format :: u8

text \<open>\<open>packets_to_send\<close> and \<open>packets_sent\<close> are C \<^verbatim>\<open>int\<close>s that stay between 0 and 10.\<close>

record trigger_t =
  armed :: u8
  occurred :: u8
  sending :: u8
  timestamp :: u32
  packets_to_send :: int
  packets_sent :: int
  next_trigger_time :: u32

text \<open>The three \<^verbatim>\<open>printf\<close> lines of \<^verbatim>\<open>app_send_frame_with_seq\<close>, with their arguments:
  the only trace of whether a frame reached the TX queue.\<close>

datatype log_line =
    TxQueued u8 u8 u16   \<comment> \<open>\<^verbatim>\<open>TX queued: (cmd) seq= len=\<close>\<close>
  | TxDropped u8         \<comment> \<open>\<^verbatim>\<open>TX buffer full, frame dropped: (cmd)\<close>\<close>
  | BuildFailed          \<comment> \<open>\<^verbatim>\<open>Build frame failed: -1\<close>\<close>

text \<open>
  \<^verbatim>\<open>app_context_t\<close>, the type of the global \<^verbatim>\<open>g_app\<close>. The array \<open>sample_data\<close> is never
  used and the transport pointer is used by \<^verbatim>\<open>app_process_tx_buffer\<close> only; both are
  left out. Three fields are added for what the functions touch outside \<^verbatim>\<open>g_app\<close>:
  \<open>rand_seq\<close> and \<open>rand_pos\<close> are the C library's random generator (\<open>rand_seq k\<close> is
  the value of the \<open>k\<close>-th call of \<^verbatim>\<open>rand()\<close>, which is never negative), and \<open>log\<close> is
  the standard output, restricted to the lines of \<open>log_line\<close>.
\<close>

record app_context_t =
  mode :: device_mode_t
  status :: stream_status_t
  seq_counter :: u8
  channels :: "channel_t list"
  num_channels :: u8
  trigger :: trigger_t
  last_data_send_time :: u32
  start_time :: u32
  tx_frame_buf :: "u8 list"
  data_payload :: "u8 list"
  rx_buffer :: RxBuffer_t
  tx_buffer :: TxBuffer_t
  rand_seq :: "nat \<Rightarrow> nat"
  rand_pos :: nat
  log :: "log_line list"

definition rand :: "app_context_t \<Rightarrow> nat \<times> app_context_t" where
  "rand s = (rand_seq s (rand_pos s), s\<lparr>rand_pos := rand_pos s + 1\<rparr>)"

text \<open>Stores through \<^verbatim>\<open>uint16_t*\<close> and \<^verbatim>\<open>uint32_t*\<close> casts and the load through
  \<^verbatim>\<open>uint32_t*\<close>, on the little-endian hosts the program is written for.\<close>

definition le16 :: "u16 \<Rightarrow> u8 list" where
  "le16 w = [ucast w, ucast (drop_bit 8 w)]"

definition le32 :: "u32 \<Rightarrow> u8 list" where
  "le32 w = [ucast w, ucast (drop_bit 8 w), ucast (drop_bit 16 w), ucast (drop_bit 24 w)]"

definition load32 :: "u8 list \<Rightarrow> nat \<Rightarrow> u32" where
  "load32 buf off =
     (ucast (buf ! off) :: u32) OR push_bit 8 (ucast (buf ! (off + 1)) :: u32)
       OR push_bit 16 (ucast (buf ! (off + 2)) :: u32) OR push_bit 24 (ucast (buf ! (off + 3)) :: u32)"

text \<open>\<^verbatim>\<open>app_init\<close>: \<^verbatim>\<open>memset\<close> to zero, then the defaults. The random generator is not
  part of \<^verbatim>\<open>g_app\<close>: its sequence is the argument.\<close>

definition app_init :: "(nat \<Rightarrow> nat) \<Rightarrow> app_context_t" where
  "app_init rs =
     \<lparr>mode = MODE_CONTINUOUS, status = STATUS_STOPPED, seq_counter = 0,
      channels = [\<lparr>enabled = 1, sample_rate = 10000, format = 0x01\<rparr>,
                  \<lparr>enabled = 1, sample_rate = 10000, format = 0x01\<rparr>]
                 @ replicate 6 \<lparr>enabled = 0, sample_rate = 0, format = 0\<rparr>,
      num_channels = 2,
      trigger = \<lparr>armed = 0, occurred = 0, sending = 0, timestamp = 0,
                  packets_to_send = 0, packets_sent = 0, next_trigger_time = 0\<rparr>,
      last_data_send_time = 0, start_time = 0,
      tx_frame_buf = replicate TX_FRAME_BUF_SIZE 0,
      data_payload = replicate DATA_PAYLOAD_SIZE 0,
      rx_buffer = \<lparr>rx_buf = replicate RX_BUFFER_SIZE 0, rx_head = 0, rx_tail = 0\<rparr>,
      tx_buffer = \<lparr>tx_buf = replicate TX_BUFFER_SIZE 0, tx_head = 0, tx_tail = 0\<rparr>,
      rand_seq = rs, rand_pos = 0, log = []\<rparr>"

text \<open>\<^verbatim>\<open>app_send_frame_with_seq\<close>: build into \<open>tx_frame_buf\<close>, then queue.\<close>

definition app_send_frame_with_seq ::
  "app_context_t \<Rightarrow> u8 \<Rightarrow> u8 \<Rightarrow> u8 list option \<Rightarrow> u16 \<Rightarrow> app_context_t" where
  "app_send_frame_with_seq s cmd seq payload len =
     (case buildFrame cmd seq payload len (tx_frame_buf s) (of_nat TX_FRAME_BUF_SIZE) of
        Inr (buf, frame_len) \<Rightarrow>
          (case enqueueTxFrame (tx_buffer s) buf frame_len of
             Inr t \<Rightarrow> s\<lparr>tx_frame_buf := buf, tx_buffer := t,
                         log := log s @ [TxQueued cmd seq frame_len]\<rparr>
           | Inl (e, t) \<Rightarrow> s\<lparr>tx_frame_buf := buf, tx_buffer := t,
                              log := log s @ [TxDropped cmd]\<rparr>)
      | Inl e \<Rightarrow> s\<lparr>log := log s @ [BuildFailed]\<rparr>)"







text \<open>The loop of \<^verbatim>\<open>CMD_CONFIGURE_STREAM\<close>, counted down from \<open>num_configs\<close>: the
  condition \<^verbatim>\<open>offset + 6 <= payload_len\<close> is evaluated in \<^verbatim>\<open>int\<close>.\<close>

fun configure_loop :: "nat \<Rightarrow> app_context_t \<Rightarrow> u8 list \<Rightarrow> u16 \<Rightarrow> u16 \<Rightarrow> app_context_t" where
  "configure_loop 0 s payload payload_len offset = s"
| "configure_loop (Suc k) s payload payload_len offset =
     (if unat offset + 6 \<le> unat payload_len then
        let ch_id = payload ! unat offset;
            rate = load32 payload (unat offset + 1);
            fmt = payload ! (unat offset + 5);
            s' = (if ch_id < num_channels s
                  then s\<lparr>channels := (channels s)[unat ch_id :=
                            \<lparr>enabled = (if rate > 0 then 1 else 0), sample_rate = rate, format = fmt\<rparr>]\<rparr>
                  else s)
        in configure_loop k s' payload payload_len (offset + 6)
      else s)"

text \<open>The channel records of \<^verbatim>\<open>CMD_GET_DEVICE_INFO\<close>; the names are ASCII.\<close>

definition channel_name :: "nat \<Rightarrow> u8 list" where
  "channel_name i = map (\<lambda>c. of_nat (of_char c)) (if i = 0 then ''Voltage'' else ''Current'')"

definition device_info :: "app_context_t \<Rightarrow> u8 list" where
  "device_info s =
     [6] @ le16 0x0201 @ [num_channels s]
     @ concat (map (\<lambda>i. [of_nat i] @ le32 100000 @ le16 0x03
                          @ [of_nat (length (channel_name i))] @ channel_name i)
                 [0..<unat (num_channels s)])"

text \<open>\<^verbatim>\<open>app_handle_command\<close>, one branch per \<^verbatim>\<open>case\<close> of the \<^verbatim>\<open>switch\<close>.\<close>

definition app_handle_command ::
  "app_context_t \<Rightarrow> u8 \<Rightarrow> u8 \<Rightarrow> u8 list \<Rightarrow> u16 \<Rightarrow> app_context_t" where
  "app_handle_command s cmd seq payload payload_len =
     (if cmd = CMD_PING then
        app_send_frame_with_seq s CMD_PONG seq
          (Some [0xDD, 0xCC, 0xBB, 0xAA, 0x44, 0x33, 0x22, 0x11]) 8
      else if cmd = CMD_GET_STATUS then
        app_send_frame_with_seq s CMD_STATUS_RESPONSE seq
          (Some [mode_value (mode s), status_value (status s), 0, 0, 0, 0, 0, 0]) 8
      else if cmd = CMD_GET_DEVICE_INFO then
        app_send_frame_with_seq s CMD_DEVICE_INFO_RESPONSE seq
          (Some (device_info s)) (of_nat (length (device_info s)))
      else if cmd = CMD_SET_MODE_CONTINUOUS then
        app_send_frame_with_seq
          (s\<lparr>mode := MODE_CONTINUOUS, trigger := (trigger s)\<lparr>armed := 0\<rparr>\<rparr>) CMD_ACK seq None 0
      else if cmd = CMD_SET_MODE_TRIGGER then
        let (r, s1) = rand s
        in app_send_frame_with_seq
             (s1\<lparr>mode := MODE_TRIGGER,
                  trigger := (trigger s1)\<lparr>armed := 1, occurred := 0, sending := 0,
                    next_trigger_time := start_time s1 + 5000 + of_nat (r mod 5000)\<rparr>\<rparr>)
             CMD_ACK seq None 0
      else if cmd = CMD_START_STREAM then
        app_send_frame_with_seq (s\<lparr>status := STATUS_RUNNING, last_data_send_time := 0\<rparr>) CMD_ACK seq None 0
      else if cmd = CMD_STOP_STREAM then
        app_send_frame_with_seq
          (s\<lparr>status := STATUS_STOPPED, trigger := (trigger s)\<lparr>sending := 0\<rparr>\<rparr>) CMD_ACK seq None 0
      else if cmd = CMD_CONFIGURE_STREAM then
        if payload_len < 1 then app_send_frame_with_seq s CMD_NACK seq (Some [0x01, 0x01]) 2
        else
          let num_configs = payload ! 0
          in app_send_frame_with_seq (configure_loop (unat num_configs) s payload payload_len 1)
               CMD_ACK seq None 0
      else if cmd = CMD_REQUEST_BUFFERED_DATA then
        if mode s \<noteq> MODE_TRIGGER \<or> occurred (trigger s) = 0
        then app_send_frame_with_seq s CMD_NACK seq (Some [0x02, 0x02]) 2
        else app_send_frame_with_seq s CMD_ACK seq None 0
      else app_send_frame_with_seq s CMD_NACK seq (Some [0x05, 0x00]) 2)"


section \<open>Notions used in the statements\<close>

text \<open>The bytes of a frame with command \<open>cmd\<close>, sequence number \<open>seq\<close> and payload \<open>p\<close>,
  as one list: what \<^verbatim>\<open>buildFrame\<close> writes (lemma \<open>buildFrame_layout\<close>).\<close>

definition frame_layout :: "u8 \<Rightarrow> u8 \<Rightarrow> u8 list \<Rightarrow> u8 list" where
  "frame_layout cmd seq p =
     (let lengthField = (of_nat (length p) + 4 :: u16);
          crc = foldl crc_byte 0xFFFF (cmd # seq # p)
      in [FRAME_HEAD_0, FRAME_HEAD_1, ucast (lengthField AND 0xFF), ucast (drop_bit 8 lengthField AND 0xFF), cmd, seq]
         @ p @ [ucast (crc AND 0xFF), ucast (drop_bit 8 crc AND 0xFF), FRAME_TAIL_0, FRAME_TAIL_1])"

text \<open>The output parameters after \<^verbatim>\<open>parseFrame\<close> has read command \<open>c\<close>, sequence number
  \<open>s\<close> and payload \<open>p\<close> (lemma \<open>parseFrame_shape\<close>).\<close>

definition parsed_out :: "parse_out \<Rightarrow> u8 \<Rightarrow> u8 \<Rightarrow> u8 list \<Rightarrow> parse_out" where
  "parsed_out out c s p =
     out\<lparr>pCmd := c, pSeq := s,
         pPayload := (case pPayload out of Some dst \<Rightarrow> Some (memcpy dst 0 p) | None \<Rightarrow> None),
         pPayloadLen := (case pPayloadLen out of Some _ \<Rightarrow> Some (of_nat (length p)) | None \<Rightarrow> None)\<rparr>"

text \<open>Bit \<open>k\<close> of byte \<open>i\<close> inverted.\<close>

definition flip_bit :: "u8 list \<Rightarrow> nat \<Rightarrow> nat \<Rightarrow> u8 list" where
  "flip_bit xs i k = xs[i := (xs ! i) XOR push_bit k 1]"

text \<open>The state after \<^verbatim>\<open>app_send_frame_with_seq\<close> has laid out the frame with command \<open>cmd\<close>,
  sequence number \<open>seq\<close> and payload \<open>p\<close> in \<open>tx_frame_buf\<close> and passed it to
  \<^verbatim>\<open>enqueueTxFrame\<close> (lemma \<open>app_send_frame_with_seq_layout\<close>).\<close>

definition send_result :: "app_context_t \<Rightarrow> u8 \<Rightarrow> u8 \<Rightarrow> u8 list \<Rightarrow> app_context_t" where
  "send_result s cmd seq p =
     (let n = (of_nat (length p + 10) :: u16);
          buf = frame_layout cmd seq p @ drop (length p + 10) (tx_frame_buf s)
      in case enqueueTxFrame (tx_buffer s) buf n of
           Inr t \<Rightarrow> s\<lparr>tx_frame_buf := buf, tx_buffer := t, log := log s @ [TxQueued cmd seq n]\<rparr>
         | Inl (e, t) \<Rightarrow> s\<lparr>tx_frame_buf := buf, tx_buffer := t, log := log s @ [TxDropped cmd]\<rparr>)"

text \<open>A random generator that always returns 0, for concrete runs.\<close>

definition rand_zero :: "nat \<Rightarrow> nat" where
  "rand_zero k = 0"

text \<open>A ring as the functions leave it: the array has the buffer size and both cursors
  are inside it.\<close>

definition rx_wf :: "RxBuffer_t \<Rightarrow> bool" where
  "rx_wf r \<longleftrightarrow> length (rx_buf r) = RX_BUFFER_SIZE
              \<and> unat (rx_head r) < RX_BUFFER_SIZE \<and> unat (rx_tail r) < RX_BUFFER_SIZE"

definition tx_wf :: "TxBuffer_t \<Rightarrow> bool" where
  "tx_wf t \<longleftrightarrow> length (tx_buf t) = TX_BUFFER_SIZE
              \<and> unat (tx_head t) < TX_BUFFER_SIZE \<and> unat (tx_tail t) < TX_BUFFER_SIZE"

text \<open>Writing the bytes \<open>xs\<close> into a ring of 65535 bytes from position \<open>t\<close> on: what
  the store loops of \<^verbatim>\<open>feedRxBuffer\<close> and \<^verbatim>\<open>enqueueTxFrame\<close> do to the array (lemmas
  \<open>foldl_rx_put\<close> and \<open>foldl_tx_put\<close>).\<close>

fun ring_write :: "u8 list \<Rightarrow> nat \<Rightarrow> u8 list \<Rightarrow> u8 list" where
  "ring_write b t [] = b"
| "ring_write b t (x # xs) = ring_write (b[t := x]) ((t + 1) mod 65535) xs"


text \<open>The state the application functions keep: the two work buffers have their declared
  sizes and the number of channels is at most \<^verbatim>\<open>MAX_CHANNELS\<close>.\<close>

definition app_wf :: "app_context_t \<Rightarrow> bool" where
  "app_wf s \<longleftrightarrow> length (tx_frame_buf s) = TX_FRAME_BUF_SIZE
               \<and> length (data_payload s) = DATA_PAYLOAD_SIZE
               \<and> unat (num_channels s) \<le> MAX_CHANNELS"

text \<open>The TX ring is well formed and has at least \<open>n\<close> free bytes.\<close>

definition room :: "app_context_t \<Rightarrow> nat \<Rightarrow> bool" where
  "room s n \<longleftrightarrow> tx_wf (tx_buffer s) \<and> n \<le> unat (txBufferFreeSpace (tx_buffer s))"

text \<open>The TX ring with the record of the frame \<open>f\<close> appended: the length of \<open>f\<close> in two
  bytes, low byte first, then the bytes of \<open>f\<close>, stored from the tail on around the ring,
  and the tail moved behind them (lemma \<open>enqueueTxFrame_append\<close>).\<close>

definition tx_append :: "TxBuffer_t \<Rightarrow> u8 list \<Rightarrow> TxBuffer_t" where
  "tx_append t f =
     \<lparr>tx_buf = ring_write (tx_buf t) (unat (tx_tail t)) (le16 (of_nat (length f)) @ f),
      tx_head = tx_head t,
      tx_tail = of_nat ((unat (tx_tail t) + 2 + length f) mod TX_BUFFER_SIZE)\<rparr>"

text \<open>The state after the frame with command \<open>cmd\<close>, sequence number \<open>seq\<close> and payload \<open>p\<close>
  has been laid out in \<open>tx_frame_buf\<close>, its record appended to the TX ring and the line
  logged: \<open>send_result\<close> when the ring has room (lemma \<open>send_result_room\<close>).\<close>

definition frame_queued :: "app_context_t \<Rightarrow> u8 \<Rightarrow> u8 \<Rightarrow> u8 list \<Rightarrow> app_context_t" where
  "frame_queued s cmd seq p =
     s\<lparr>tx_frame_buf := frame_layout cmd seq p @ drop (length p + 10) (tx_frame_buf s),
       tx_buffer := tx_append (tx_buffer s) (frame_layout cmd seq p),
       log := log s @ [TxQueued cmd seq (of_nat (length p + 10))]\<rparr>"

text \<open>The \<open>j\<close>-th configuration record of a \<^verbatim>\<open>CMD_CONFIGURE_STREAM\<close> payload (channel id,
  sample rate in four bytes low byte first, format), and what applying one record to the
  channels means: a record whose channel id is below the number of channels sets that
  channel's rate and format and enables it exactly when the rate is not 0; any other
  record changes nothing.\<close>

definition config_record :: "u8 list \<Rightarrow> nat \<Rightarrow> u8 \<times> u32 \<times> u8" where
  "config_record payload j = (payload ! (1 + 6 * j), load32 payload (2 + 6 * j), payload ! (6 + 6 * j))"

fun apply_config :: "u8 \<Rightarrow> channel_t list \<Rightarrow> u8 \<times> u32 \<times> u8 \<Rightarrow> channel_t list" where
  "apply_config n chs (ch, rate, fmt) =
     (if ch < n
      then chs[unat ch := \<lparr>enabled = (if rate > 0 then 1 else 0), sample_rate = rate, format = fmt\<rparr>]
      else chs)"






text \<open>The frames of a burst after the EventTriggered, as triples of command, sequence
  number and payload: one DataPacket for each payload of \<open>ps\<close>, then the
  BufferTransferComplete, with consecutive sequence numbers from \<open>q\<close> on. The payloads
  of a burst: the \<open>i\<close>-th has the header of a DataPacket with the timestamp
  \<open>ts + i * DATA_SEND_INTERVAL\<close>.\<close>

fun burst_frames :: "u8 \<Rightarrow> u8 list list \<Rightarrow> (u8 \<times> u8 \<times> u8 list) list" where
  "burst_frames q [] = [(CMD_BUFFER_TRANSFER_COMPLETE, q, [])]"
| "burst_frames q (p # ps) = (CMD_DATA_PACKET, q, p) # burst_frames (q + 1) ps"







section \<open>The frame codec\<close>

lemma memcpy_length [simp]: "length (memcpy dst off src) = length dst"
  by (induction src arbitrary: dst off) auto

lemma memcpy_eq:
  "off + length src \<le> length dst \<Longrightarrow>
   memcpy dst off src = take off dst @ src @ drop (off + length src) dst"
proof (induction src arbitrary: dst off)
  case Nil then show ?case by simp
next
  case (Cons x xs)
  then show ?case
    by (simp add: upd_conv_take_nth_drop take_Suc_conv_app_nth ac_simps)
qed

lemma memcpy_append:
  "memcpy dst off (a @ b) = memcpy (memcpy dst off a) (off + length a) b"
  by (induction a arbitrary: dst off) auto

lemma memcpy_snoc: "(memcpy dst off a)[off + length a := v] = memcpy dst off (a @ [v])"
  by (simp add: memcpy_append)

lemma length_frame_layout [simp]: "length (frame_layout cmd seq p) = length p + 10"
  by (simp add: frame_layout_def Let_def)

lemma buildFrame_layout:
  assumes n: "unat payloadLen + 10 \<le> unat outBufLen"
      and L: "unat outBufLen \<le> length outBuf"
      and p: "unat payloadLen \<le> length p"
  shows "buildFrame cmd seq (Some p) payloadLen outBuf outBufLen =
         Inr (frame_layout cmd seq (take (unat payloadLen) p) @ drop (unat payloadLen + 10) outBuf,
              payloadLen + 10)"
proof -
  define pb where "pb = take (unat payloadLen) p"
  have lpb: "length pb = unat payloadLen" using p by (simp add: pb_def)
  have bnd: "unat payloadLen + 10 < 65536" using n unsigned_less[of outBufLen, where 'a=nat] by simp
  have u6: "unat (6 + payloadLen) = 6 + unat payloadLen"
    using bnd by (simp add: unat_word_ariths)
  have u7: "unat (6 + payloadLen + 1) = 6 + unat payloadLen + 1"
    using bnd by (simp add: unat_word_ariths)
  have u8: "unat (6 + payloadLen + 2) = 6 + unat payloadLen + 2"
    using bnd by (simp add: unat_word_ariths)
  have u9: "unat (6 + payloadLen + 3) = 6 + unat payloadLen + 3"
    using bnd by (simp add: unat_word_ariths)
  have u2: "unat (2 + payloadLen) = 2 + unat payloadLen"
    using bnd by (simp add: unat_word_ariths)
  have tot: "\<not> (2 + 2 + (1 + 1 + payloadLen + 2) + 2 > outBufLen)"
  proof -
    have "unat (2 + 2 + (1 + 1 + payloadLen + 2) + 2) = unat payloadLen + 10"
      using bnd by (simp add: unat_word_ariths)
    then show ?thesis using n by (simp add: word_less_nat_alt)
  qed
  let ?lf = "1 + 1 + payloadLen + 2 :: u16"
  let ?hdr = "[FRAME_HEAD_0, FRAME_HEAD_1, ucast (?lf AND 0xFF), ucast (drop_bit 8 ?lf AND 0xFF), cmd, seq]"
  have L6: "6 \<le> length outBuf" using n L by simp
  have b6: "outBuf[0 := FRAME_HEAD_0, 1 := FRAME_HEAD_1, 2 := ucast (?lf AND 0xFF),
              3 := ucast (drop_bit 8 ?lf AND 0xFF), 4 := cmd, 5 := seq] = memcpy outBuf 0 ?hdr"
    by (simp add: eval_nat_numeral)
  have b7: "(if payloadLen > 0 then (memcpy (memcpy outBuf 0 ?hdr) 6 pb, 6 + payloadLen)
             else (memcpy outBuf 0 ?hdr, 6)) = (memcpy outBuf 0 (?hdr @ pb), 6 + payloadLen)"
  proof (cases "payloadLen > 0")
    case True
    have "memcpy (memcpy outBuf 0 ?hdr) (0 + length ?hdr) pb = memcpy outBuf 0 (?hdr @ pb)"
      by (rule memcpy_append[symmetric])
    moreover have "0 + length ?hdr = 6" by simp
    ultimately have "memcpy (memcpy outBuf 0 ?hdr) 6 pb = memcpy outBuf 0 (?hdr @ pb)"
      by (simp only:)
    with True show ?thesis by (simp only: if_True)
  next
    case False
    then have "payloadLen = 0" by (simp add: word_gt_0)
    then show ?thesis using lpb by (simp del: memcpy.simps)
  qed
  have crcarg: "take (unat (2 + payloadLen)) (drop 4 (memcpy outBuf 0 (?hdr @ pb))) = cmd # seq # pb"
  proof -
    have "memcpy outBuf 0 (?hdr @ pb) = take 0 outBuf @ (?hdr @ pb) @ drop (0 + length (?hdr @ pb)) outBuf"
      by (rule memcpy_eq) (use n L lpb in simp)
    then show ?thesis using lpb u2 by (simp del: memcpy.simps)
  qed
  have lh: "length (?hdr @ pb) = 6 + unat payloadLen" using lpb by simp
  let ?crc = "foldl crc_byte 0xFFFF (cmd # seq # pb)"
  let ?trl = "[ucast (?crc AND 0xFF), ucast (drop_bit 8 ?crc AND 0xFF), FRAME_TAIL_0, FRAME_TAIL_1]"
  have b11: "(memcpy outBuf 0 (?hdr @ pb))[6 + unat payloadLen := ucast (?crc AND 0xFF),
              6 + unat payloadLen + 1 := ucast (drop_bit 8 ?crc AND 0xFF),
              6 + unat payloadLen + 2 := FRAME_TAIL_0,
              6 + unat payloadLen + 3 := FRAME_TAIL_1] = memcpy outBuf 0 ((?hdr @ pb) @ ?trl)"
    unfolding memcpy_append[of outBuf 0 "?hdr @ pb" ?trl] lh by (simp add: ac_simps)
  have lf: "?lf = of_nat (length pb) + 4" using lpb by simp
  have fin: "memcpy outBuf 0 ((?hdr @ pb) @ ?trl) = frame_layout cmd seq pb @ drop (unat payloadLen + 10) outBuf"
  proof -
    have lt: "0 + length ((?hdr @ pb) @ ?trl) = unat payloadLen + 10" using lpb by simp
    have "memcpy outBuf 0 ((?hdr @ pb) @ ?trl) =
          take 0 outBuf @ ((?hdr @ pb) @ ?trl) @ drop (0 + length ((?hdr @ pb) @ ?trl)) outBuf"
      by (rule memcpy_eq) (use n L lpb in simp)
    then have "memcpy outBuf 0 ((?hdr @ pb) @ ?trl) = ((?hdr @ pb) @ ?trl) @ drop (unat payloadLen + 10) outBuf"
      unfolding lt by (simp del: memcpy.simps)
    moreover have "(?hdr @ pb) @ ?trl = frame_layout cmd seq pb"
      using lpb by (simp add: frame_layout_def Let_def ac_simps)
    ultimately show ?thesis by (simp only:)
  qed
  have off4: "6 + payloadLen + 4 = payloadLen + 10" by simp
  show ?thesis
    unfolding buildFrame_def Let_def
    using tot
    apply (simp only: if_False option.case b6 pb_def[symmetric] b7 split CRC16_Calc_def crcarg u6 u7 u8 u9 b11 fin off4)
    done
qed

lemma le16_decode: "(ucast (ucast (w AND 0xFF :: u16) :: u8) :: u16) OR push_bit 8 (ucast (ucast (drop_bit 8 w AND 0xFF :: u16) :: u8)) = w"
proof -
  have m: "(0xFF :: u16) = mask 8" by (simp add: mask_eq_exp_minus_1)
  show ?thesis
    unfolding m
    apply (rule bit_word_eqI)
    apply (auto simp add: bit_simps)
    done
qed

lemma unat_of_nat16: "n < 65536 \<Longrightarrow> unat (of_nat n :: u16) = n"
  by (simp add: unat_of_nat)

lemma parseFrame_shape:
  assumes "length p + 10 < 65536"
  shows "parseFrame (h0 # h1 # l0 # l1 # c # s # p @ [c0, c1, t0, t1]) (of_nat (length p + 10)) out =
    (if h0 \<noteq> FRAME_HEAD_0 \<or> h1 \<noteq> FRAME_HEAD_1 then Inl (HeaderMismatch, out)
     else if t0 \<noteq> FRAME_TAIL_0 \<or> t1 \<noteq> FRAME_TAIL_1 then Inl (TailMismatch, out)
     else if (ucast l0 :: u16) OR push_bit 8 (ucast l1) \<noteq> of_nat (length p) + 4 then Inl (LengthMismatch, out)
     else if (ucast c0 :: u16) OR push_bit 8 (ucast c1) \<noteq> foldl crc_byte 0xFFFF (c # s # p)
       then Inl (ChecksumMismatch, parsed_out out c s p)
     else Inr (parsed_out out c s p))"
proof -
  define n where "n = length p"
  define inLen :: u16 where "inLen = of_nat (length p + 10)"
  define buf where "buf = h0 # h1 # l0 # l1 # c # s # p @ [c0, c1, t0, t1]"
  define lfd :: u16 where "lfd = (ucast l0 :: u16) OR push_bit 8 (ucast l1)"
  have uL: "unat inLen = n + 10" unfolding inLen_def n_def by (rule unat_of_nat16) (use assms in simp)
  have ge: "\<not> inLen < 8" using uL by (simp add: word_less_nat_alt)
  have b: "buf ! 0 = h0" "buf ! 1 = h1" "buf ! 2 = l0" "buf ! 3 = l1" "buf ! 4 = c" "buf ! 5 = s"
    by (simp_all add: buf_def eval_nat_numeral)
  have t: "buf ! (unat inLen - 2) = t0" "buf ! (unat inLen - 1) = t1"
    unfolding uL by (simp_all add: buf_def n_def nth_Cons' nth_append)
  have lf: "6 + lfd \<noteq> inLen \<longleftrightarrow> lfd \<noteq> of_nat n + 4"
    unfolding inLen_def n_def by (simp add: add.commute)
  have un: "unat (of_nat n :: u16) = n" unfolding n_def by (rule unat_of_nat16) (use assms in simp)
  have un2: "unat (2 + of_nat n :: u16) = n + 2"
    using assms un by (simp add: unat_word_ariths n_def)
  have un6: "unat (6 + of_nat n :: u16) = n + 6"
    using assms un by (simp add: unat_word_ariths n_def)
  have un7: "unat (6 + of_nat n + 1 :: u16) = n + 7"
    using assms un by (simp add: unat_word_ariths n_def)
  have cc: "buf ! (n + 6) = c0" "buf ! (n + 7) = c1"
    by (simp_all add: buf_def n_def nth_Cons' nth_append)
  have pl: "take n (drop (unat (6 :: u16)) buf) = p" by (simp add: buf_def n_def)
  have cr: "take (n + 2) (drop 4 buf) = c # s # p" by (simp add: buf_def n_def)
  have z: "(0 < (of_nat n :: u16)) \<longleftrightarrow> p \<noteq> []"
    using un by (auto simp add: word_less_nat_alt n_def)
  have pl4: "of_nat n + 4 - 4 = (of_nat n :: u16)" by simp
  have po: "(case pPayloadLen
                  (case pPayload (out\<lparr>pCmd := c, pSeq := s\<rparr>) of
                     None \<Rightarrow> out\<lparr>pCmd := c, pSeq := s\<rparr>
                   | Some dst \<Rightarrow> if p \<noteq> [] then out\<lparr>pCmd := c, pSeq := s, pPayload := Some (memcpy dst 0 p)\<rparr>
                                else out\<lparr>pCmd := c, pSeq := s\<rparr>) of
               None \<Rightarrow> (case pPayload (out\<lparr>pCmd := c, pSeq := s\<rparr>) of
                     None \<Rightarrow> out\<lparr>pCmd := c, pSeq := s\<rparr>
                   | Some dst \<Rightarrow> if p \<noteq> [] then out\<lparr>pCmd := c, pSeq := s, pPayload := Some (memcpy dst 0 p)\<rparr>
                                else out\<lparr>pCmd := c, pSeq := s\<rparr>)
             | Some x \<Rightarrow> (case pPayload (out\<lparr>pCmd := c, pSeq := s\<rparr>) of
                     None \<Rightarrow> out\<lparr>pCmd := c, pSeq := s\<rparr>
                   | Some dst \<Rightarrow> if p \<noteq> [] then out\<lparr>pCmd := c, pSeq := s, pPayload := Some (memcpy dst 0 p)\<rparr>
                                else out\<lparr>pCmd := c, pSeq := s\<rparr>)\<lparr>pPayloadLen := Some (of_nat n)\<rparr>)
            = parsed_out out c s p"
    by (cases "pPayload out"; cases "pPayloadLen out"; cases p) (simp_all add: parsed_out_def n_def)
  have "parseFrame buf inLen out =
    (if h0 \<noteq> FRAME_HEAD_0 \<or> h1 \<noteq> FRAME_HEAD_1 then Inl (HeaderMismatch, out)
     else if t0 \<noteq> FRAME_TAIL_0 \<or> t1 \<noteq> FRAME_TAIL_1 then Inl (TailMismatch, out)
     else if lfd \<noteq> of_nat n + 4 then Inl (LengthMismatch, out)
     else if (ucast c0 :: u16) OR push_bit 8 (ucast c1) \<noteq> foldl crc_byte 0xFFFF (c # s # p)
       then Inl (ChecksumMismatch, parsed_out out c s p)
     else Inr (parsed_out out c s p))"
  proof (cases "lfd = of_nat n + 4")
    case False
    then show ?thesis
      unfolding parseFrame_def Let_def
      by (simp only: ge if_False b t lfd_def[symmetric] lf if_True simp_thms)
  next
    case True
    have lf2: "6 + (of_nat n + 4 :: u16) = inLen" using lf True by simp
    show ?thesis
      unfolding parseFrame_def Let_def
      apply (simp only: ge if_False b t lfd_def[symmetric] lf2 True pl4 simp_thms
          un un2 un6 un7 cc pl cr CRC16_Calc_def z po)
      done
  qed
  then show ?thesis unfolding buf_def inLen_def lfd_def n_def .
qed

lemma no_bit16: "\<not> bit (c :: u16) 16"
  using bit_imp_le_length[of c 16] by auto

lemma crc_shift_top: "bit (crc_shift c) 15 \<longleftrightarrow> odd c"
  by (cases "odd c") (simp_all add: crc_shift_def bit_simps and_one_eq no_bit16 odd_iff_mod_2_eq_one even_iff_mod_2_eq_zero)

lemma crc_shift_low: "drop_bit 1 c = crc_shift c XOR (if odd c then 0xA001 else 0)"
  by (cases "odd c") (simp_all add: crc_shift_def and_one_eq xor.assoc odd_iff_mod_2_eq_one even_iff_mod_2_eq_zero)

lemma crc_shift_inj: "crc_shift a = crc_shift b \<Longrightarrow> a = b"
proof -
  assume e: "crc_shift a = crc_shift b"
  have o: "odd a \<longleftrightarrow> odd b" using crc_shift_top[of a] crc_shift_top[of b] e by simp
  have d: "drop_bit 1 a = drop_bit 1 b" using crc_shift_low[of a] crc_shift_low[of b] e o by simp
  show "a = b"
  proof (rule bit_word_eqI)
    fix n assume "n < LENGTH(16)"
    show "bit a n = bit b n"
    proof (cases n)
      case 0 then show ?thesis using o by (simp add: bit_0)
    next
      case (Suc m)
      have "bit (drop_bit 1 a) m = bit (drop_bit 1 b) m" using d by simp
      then show ?thesis using Suc by (simp add: bit_drop_bit_eq)
    qed
  qed
qed

lemma crc_bits_inj: "crc_bits n a = crc_bits n b \<Longrightarrow> a = b"
  by (induction n arbitrary: a b) (auto dest: crc_shift_inj)

lemma ucast_8_16_inj: "(ucast (x :: u8) :: u16) = ucast y \<Longrightarrow> x = y"
proof -
  assume "(ucast x :: u16) = ucast y"
  then have "(ucast (ucast x :: u16) :: u8) = ucast (ucast y :: u16)" by simp
  moreover have "\<And>z :: u8. (ucast (ucast z :: u16) :: u8) = z"
    by (rule bit_word_eqI) (simp add: bit_simps)
  ultimately show "x = y" by simp
qed

lemma xor_cancel_r: "(a :: u16) XOR c = b XOR c \<Longrightarrow> a = b"
proof -
  assume "a XOR c = b XOR c"
  then have "(a XOR c) XOR c = (b XOR c) XOR c" by simp
  then show ?thesis by (simp add: xor.assoc)
qed

lemma xor_cancel_l: "(a :: u16) XOR b = a XOR c \<Longrightarrow> b = c"
  using xor_cancel_r[of b a c] by (simp add: xor.commute)


lemma crc_byte_inj_state: "crc_byte a x = crc_byte b x \<Longrightarrow> a = b"
  unfolding crc_byte_def by (drule crc_bits_inj) (rule xor_cancel_r)

lemma crc_byte_inj_byte: "crc_byte a x = crc_byte a y \<Longrightarrow> x = y"
  unfolding crc_byte_def by (drule crc_bits_inj) (drule xor_cancel_l, rule ucast_8_16_inj)

lemma crc_fold_inj_state: "foldl crc_byte a xs = foldl crc_byte b xs \<Longrightarrow> a = b"
  by (induction xs arbitrary: a b) (auto dest: crc_byte_inj_state)

lemma crc_single_byte:
  "x \<noteq> y \<Longrightarrow> foldl crc_byte a (pre @ x # post) \<noteq> foldl crc_byte a (pre @ y # post)"
  by (auto dest!: crc_fold_inj_state crc_byte_inj_byte)

lemma no_bit8: "\<not> bit (x :: u8) (8 + n)"
  using bit_imp_le_length[of x "8 + n"] by auto

lemma le16_inj:
  "(ucast (a :: u8) :: u16) OR push_bit 8 (ucast (b :: u8)) = ucast a' OR push_bit 8 (ucast b')
   \<Longrightarrow> a = a' \<and> b = b'"
proof -
  assume e: "(ucast a :: u16) OR push_bit 8 (ucast b) = ucast a' OR push_bit 8 (ucast b')"
  have lo: "(ucast ((ucast x :: u16) OR push_bit 8 (ucast y)) :: u8) = x" for x y :: u8
    by (rule bit_word_eqI) (auto simp add: bit_simps no_bit8)
  have hi: "(ucast (drop_bit 8 ((ucast x :: u16) OR push_bit 8 (ucast y))) :: u8) = y" for x y :: u8
    by (rule bit_word_eqI) (auto simp add: bit_simps no_bit8)
  show ?thesis using lo[of a b] hi[of a b] lo[of a' b'] hi[of a' b'] e by simp
qed

lemma xor_neq: "m \<noteq> 0 \<Longrightarrow> (x :: u8) XOR m \<noteq> x"
proof
  assume m: "m \<noteq> 0" and "x XOR m = x"
  then have "x XOR (x XOR m) = x XOR x" by simp
  then have "m = 0" by (simp add: xor.assoc[symmetric])
  with m show False by simp
qed


lemma parseFrame_shape_Inr:
  assumes "length p + 10 < 65536"
      and "parseFrame (h0 # h1 # l0 # l1 # c # s # p @ [c0, c1, t0, t1]) (of_nat (length p + 10)) out = Inr r"
  shows "h0 = FRAME_HEAD_0 \<and> h1 = FRAME_HEAD_1 \<and> t0 = FRAME_TAIL_0 \<and> t1 = FRAME_TAIL_1
         \<and> (ucast l0 :: u16) OR push_bit 8 (ucast l1) = of_nat (length p) + 4
         \<and> (ucast c0 :: u16) OR push_bit 8 (ucast c1) = foldl crc_byte 0xFFFF (c # s # p)
         \<and> r = parsed_out out c s p"
  using assms(2) unfolding parseFrame_shape[OF assms(1)]
  by (simp split: if_splits)

lemma frame_layout_flip_rejected:
  assumes len: "length p + 10 < 65536" and i: "i < length p + 10" and m: "m \<noteq> 0"
  shows "parseFrame ((frame_layout c s p)[i := frame_layout c s p ! i XOR m]) (of_nat (length p + 10)) out \<noteq> Inr r"
proof
  define lf :: u16 where "lf = of_nat (length p) + 4"
  define crc where "crc = foldl crc_byte 0xFFFF (c # s # p)"
  define l0 :: u8 where "l0 = ucast (lf AND 0xFF)"
  define l1 :: u8 where "l1 = ucast (drop_bit 8 lf AND 0xFF)"
  define c0 :: u8 where "c0 = ucast (crc AND 0xFF)"
  define c1 :: u8 where "c1 = ucast (drop_bit 8 crc AND 0xFF)"
  define F where "F = frame_layout c s p"
  have F: "F = FRAME_HEAD_0 # FRAME_HEAD_1 # l0 # l1 # c # s # p @ [c0, c1, FRAME_TAIL_0, FRAME_TAIL_1]"
    by (simp add: F_def frame_layout_def Let_def l0_def l1_def c0_def c1_def lf_def crc_def)
  have lfe: "(ucast l0 :: u16) OR push_bit 8 (ucast l1) = of_nat (length p) + 4"
    unfolding l0_def l1_def le16_decode lf_def ..
  have ce: "(ucast c0 :: u16) OR push_bit 8 (ucast c1) = foldl crc_byte 0xFFFF (c # s # p)"
    unfolding c0_def c1_def le16_decode crc_def ..
  assume "parseFrame ((frame_layout c s p)[i := frame_layout c s p ! i XOR m]) (of_nat (length p + 10)) out = Inr r"
  then have R: "parseFrame (F[i := F ! i XOR m]) (of_nat (length p + 10)) out = Inr r"
    by (simp only: F_def)
 have "i = 0 \<or> i = 1 \<or> i = 2 \<or> i = 3 \<or> i = 4 \<or> i = 5 \<or> (\<exists>j. i = 6 + j \<and> j < length p)
        \<or> i = length p + 6 \<or> i = length p + 7 \<or> i = length p + 8 \<or> i = length p + 9"
    using i by presburger
  then consider "i = 0" | "i = 1" | "i = 2" | "i = 3" | "i = 4" | "i = 5"
    | j where "i = 6 + j" "j < length p"
    | "i = length p + 6" | "i = length p + 7" | "i = length p + 8" | "i = length p + 9"
    by blast
  then show False
  proof cases
    case 1
    have "F[i := F ! i XOR m] = (FRAME_HEAD_0 XOR m) # FRAME_HEAD_1 # l0 # l1 # c # s # p @ [c0, c1, FRAME_TAIL_0, FRAME_TAIL_1]"
      unfolding F 1 by simp
    from R[unfolded this] parseFrame_shape_Inr[OF len] have "FRAME_HEAD_0 XOR m = FRAME_HEAD_0" by blast
    then show False using xor_neq[OF m] by simp
  next
    case 2
    have "F[i := F ! i XOR m] = FRAME_HEAD_0 # (FRAME_HEAD_1 XOR m) # l0 # l1 # c # s # p @ [c0, c1, FRAME_TAIL_0, FRAME_TAIL_1]"
      unfolding F 2 by simp
    from R[unfolded this] parseFrame_shape_Inr[OF len] have "FRAME_HEAD_1 XOR m = FRAME_HEAD_1" by blast
    then show False using xor_neq[OF m] by simp
  next
    case 3
    have "F[i := F ! i XOR m] = FRAME_HEAD_0 # FRAME_HEAD_1 # (l0 XOR m) # l1 # c # s # p @ [c0, c1, FRAME_TAIL_0, FRAME_TAIL_1]"
      unfolding F 3 by (simp add: eval_nat_numeral)
    from R[unfolded this] parseFrame_shape_Inr[OF len]
    have "(ucast (l0 XOR m) :: u16) OR push_bit 8 (ucast l1) = of_nat (length p) + 4" by blast
    with lfe have "l0 XOR m = l0" using le16_inj[of "l0 XOR m" l1 l0 l1] by simp
    then show False using xor_neq[OF m] by simp
  next
    case 4
    have "F[i := F ! i XOR m] = FRAME_HEAD_0 # FRAME_HEAD_1 # l0 # (l1 XOR m) # c # s # p @ [c0, c1, FRAME_TAIL_0, FRAME_TAIL_1]"
      unfolding F 4 by (simp add: eval_nat_numeral)
    from R[unfolded this] parseFrame_shape_Inr[OF len]
    have "(ucast l0 :: u16) OR push_bit 8 (ucast (l1 XOR m)) = of_nat (length p) + 4" by blast
    with lfe have "l1 XOR m = l1" using le16_inj[of l0 "l1 XOR m" l0 l1] by simp
    then show False using xor_neq[OF m] by simp
  next
    case 5
    have "F[i := F ! i XOR m] = FRAME_HEAD_0 # FRAME_HEAD_1 # l0 # l1 # (c XOR m) # s # p @ [c0, c1, FRAME_TAIL_0, FRAME_TAIL_1]"
      unfolding F 5 by (simp add: eval_nat_numeral)
    from R[unfolded this] parseFrame_shape_Inr[OF len]
    have "(ucast c0 :: u16) OR push_bit 8 (ucast c1) = foldl crc_byte 0xFFFF ((c XOR m) # s # p)" by blast
    with ce have "foldl crc_byte 0xFFFF ([] @ (c XOR m) # s # p) = foldl crc_byte 0xFFFF ([] @ c # s # p)" by simp
    then show False using crc_single_byte[OF xor_neq[OF m, of c]] by blast
  next
    case 6
    have "F[i := F ! i XOR m] = FRAME_HEAD_0 # FRAME_HEAD_1 # l0 # l1 # c # (s XOR m) # p @ [c0, c1, FRAME_TAIL_0, FRAME_TAIL_1]"
      unfolding F 6 by (simp add: eval_nat_numeral)
    from R[unfolded this] parseFrame_shape_Inr[OF len]
    have "(ucast c0 :: u16) OR push_bit 8 (ucast c1) = foldl crc_byte 0xFFFF (c # (s XOR m) # p)" by blast
    with ce have "foldl crc_byte 0xFFFF ([c] @ (s XOR m) # p) = foldl crc_byte 0xFFFF ([c] @ s # p)" by simp
    then show False using crc_single_byte[OF xor_neq[OF m, of s]] by blast
  next
    case (7 j)
    define p' where "p' = p[j := p ! j XOR m]"
    have lp': "length p' = length p" by (simp add: p'_def)
    have "F[i := F ! i XOR m] = FRAME_HEAD_0 # FRAME_HEAD_1 # l0 # l1 # c # s # p' @ [c0, c1, FRAME_TAIL_0, FRAME_TAIL_1]"
      unfolding F using 7 by (simp add: eval_nat_numeral list_update_append nth_append p'_def)
    from R[unfolded this] parseFrame_shape_Inr[of p', unfolded lp', OF len]
    have "(ucast c0 :: u16) OR push_bit 8 (ucast c1) = foldl crc_byte 0xFFFF (c # s # p')" by blast
    with ce have e: "foldl crc_byte 0xFFFF (c # s # p') = foldl crc_byte 0xFFFF (c # s # p)" by simp
    have a: "p = take j p @ p ! j # drop (Suc j) p" using 7 by (simp add: id_take_nth_drop)
    have b: "p' = take j p @ (p ! j XOR m) # drop (Suc j) p"
      using 7 by (simp add: p'_def upd_conv_take_nth_drop)
    have "foldl crc_byte 0xFFFF ((c # s # take j p) @ (p ! j XOR m) # drop (Suc j) p)
          = foldl crc_byte 0xFFFF ((c # s # take j p) @ p ! j # drop (Suc j) p)"
      using e a b by (metis append_Cons)
    then show False using crc_single_byte[OF xor_neq[OF m, of "p ! j"]] by blast
  next
    case 8
    have "F[i := F ! i XOR m] = FRAME_HEAD_0 # FRAME_HEAD_1 # l0 # l1 # c # s # p @ [c0 XOR m, c1, FRAME_TAIL_0, FRAME_TAIL_1]"
      unfolding F 8 by (simp add: eval_nat_numeral list_update_append nth_append)
    from R[unfolded this] parseFrame_shape_Inr[OF len]
    have "(ucast (c0 XOR m) :: u16) OR push_bit 8 (ucast c1) = foldl crc_byte 0xFFFF (c # s # p)" by blast
    with ce have "c0 XOR m = c0" using le16_inj[of "c0 XOR m" c1 c0 c1] by simp
    then show False using xor_neq[OF m] by simp
  next
    case 9
    have "F[i := F ! i XOR m] = FRAME_HEAD_0 # FRAME_HEAD_1 # l0 # l1 # c # s # p @ [c0, c1 XOR m, FRAME_TAIL_0, FRAME_TAIL_1]"
      unfolding F 9 by (simp add: eval_nat_numeral list_update_append nth_append)
    from R[unfolded this] parseFrame_shape_Inr[OF len]
    have "(ucast c0 :: u16) OR push_bit 8 (ucast (c1 XOR m)) = foldl crc_byte 0xFFFF (c # s # p)" by blast
    with ce have "c1 XOR m = c1" using le16_inj[of c0 "c1 XOR m" c0 c1] by simp
    then show False using xor_neq[OF m] by simp
  next
    case 10
    have "F[i := F ! i XOR m] = FRAME_HEAD_0 # FRAME_HEAD_1 # l0 # l1 # c # s # p @ [c0, c1, FRAME_TAIL_0 XOR m, FRAME_TAIL_1]"
      unfolding F 10 by (simp add: eval_nat_numeral list_update_append nth_append)
    from R[unfolded this] parseFrame_shape_Inr[OF len] have "FRAME_TAIL_0 XOR m = FRAME_TAIL_0" by blast
    then show False using xor_neq[OF m] by simp
  next
    case 11
    have "F[i := F ! i XOR m] = FRAME_HEAD_0 # FRAME_HEAD_1 # l0 # l1 # c # s # p @ [c0, c1, FRAME_TAIL_0, FRAME_TAIL_1 XOR m]"
      unfolding F 11 by (simp add: eval_nat_numeral list_update_append nth_append)
    from R[unfolded this] parseFrame_shape_Inr[OF len] have "FRAME_TAIL_1 XOR m = FRAME_TAIL_1" by blast
    then show False using xor_neq[OF m] by simp
  qed
qed

section \<open>Claims about the frame codec\<close>

text \<open>
  Claim C1 (round trip). For every command id, sequence number and payload, when the
  output buffer holds the whole frame (payload length + 10 bytes, at most the given
  \<open>outBufLen\<close>), \<^verbatim>\<open>buildFrame\<close> succeeds and emits payload length + 10 bytes, and
  \<^verbatim>\<open>parseFrame\<close> on exactly these bytes succeeds and returns the command id, the
  sequence number, the payload length and the payload bytes that went in.
\<close>
theorem buildFrame_parseFrame_roundtrip:
  assumes "unat payloadLen + 10 \<le> unat outBufLen"
      and "unat outBufLen \<le> length outBuf"
      and "length payload = unat payloadLen"
      and "pPayload out = Some dst"
      and "unat payloadLen \<le> length dst"
      and "pPayloadLen out = Some l"
  shows "\<exists>buf n out' dst'.
           buildFrame commandID seq (Some payload) payloadLen outBuf outBufLen = Inr (buf, n)
         \<and> unat n = unat payloadLen + 10
         \<and> parseFrame (take (unat n) buf) n out = Inr out'
         \<and> pCmd out' = commandID \<and> pSeq out' = seq
         \<and> pPayloadLen out' = Some payloadLen
         \<and> pPayload out' = Some dst' \<and> take (unat payloadLen) dst' = payload"
proof -
  have bnd: "unat payloadLen + 10 < 65536"
    using assms(1) unsigned_less[of outBufLen, where 'a=nat] by simp
  have un: "unat (payloadLen + 10) = unat payloadLen + 10"
    using bnd by (simp add: unat_word_ariths)
  have tk: "take (unat payloadLen) payload = payload" using assms(3) by simp
  have B: "buildFrame commandID seq (Some payload) payloadLen outBuf outBufLen =
        Inr (frame_layout commandID seq payload @ drop (unat payloadLen + 10) outBuf, payloadLen + 10)"
    using buildFrame_layout[OF assms(1,2), of payload commandID seq] assms(3) tk by simp
  have T: "take (unat (payloadLen + 10)) (frame_layout commandID seq payload @ drop (unat payloadLen + 10) outBuf)
           = frame_layout commandID seq payload"
    using un assms(3) by simp
  have n: "payloadLen + 10 = of_nat (length payload + 10)" using assms(3) by simp
  have len: "length payload + 10 < 65536" using bnd assms(3) by simp
  have lfe: "(ucast (ucast ((of_nat (length payload) + 4 :: u16) AND 0xFF) :: u8) :: u16)
              OR push_bit 8 (ucast (ucast (drop_bit 8 (of_nat (length payload) + 4 :: u16) AND 0xFF) :: u8))
             = of_nat (length payload) + 4"
    by (rule le16_decode)
  have P: "parseFrame (frame_layout commandID seq payload) (of_nat (length payload + 10)) out
           = Inr (parsed_out out commandID seq payload)"
    unfolding frame_layout_def Let_def append_Cons append_Nil parseFrame_shape[OF len] lfe le16_decode
    by simp
  have D: "take (unat payloadLen) (memcpy dst 0 payload) = payload"
  proof -
    have "memcpy dst 0 payload = take 0 dst @ payload @ drop (0 + length payload) dst"
      by (rule memcpy_eq) (use assms(3,5) in simp)
    then show ?thesis using assms(3) by (simp del: memcpy.simps)
  qed
  have P': "parseFrame (take (unat (payloadLen + 10)) (frame_layout commandID seq payload @ drop (unat payloadLen + 10) outBuf))
              (payloadLen + 10) out = Inr (parsed_out out commandID seq payload)"
    unfolding T unfolding n by (rule P)
  show ?thesis
    unfolding B
    apply (intro exI conjI)
           apply (rule refl)
          apply (rule un)
         apply (rule P')
        apply (simp add: parsed_out_def)
       apply (simp add: parsed_out_def)
      apply (simp add: parsed_out_def assms(3,6))
     apply (simp add: parsed_out_def assms(4))
    apply (rule D)
    done
qed

theorem buildFrame_parseFrame_roundtrip_witness:
  "\<exists>buf n out' dst'.
      buildFrame 0x02 7 (Some [1, 2, 3]) 3 (replicate 16 0) 16 = Inr (buf, n)
    \<and> unat n = 13
    \<and> parseFrame (take (unat n) buf) n \<lparr>pCmd = 0, pSeq = 0, pPayload = Some [0, 0, 0, 0], pPayloadLen = Some 0\<rparr> = Inr out'
    \<and> pCmd out' = 0x02 \<and> pSeq out' = 7 \<and> pPayloadLen out' = Some 3
    \<and> pPayload out' = Some dst' \<and> take 3 dst' = [1, 2, 3]"
  using buildFrame_parseFrame_roundtrip[of 3 16 "replicate 16 0" "[1, 2, 3]"
      "\<lparr>pCmd = 0, pSeq = 0, pPayload = Some [0, 0, 0, 0], pPayloadLen = Some 0\<rparr>" "[0, 0, 0, 0]" 0 "0x02" 7]
  by simp

text \<open>
  Claim C2 (corruption detection). In a frame emitted by \<^verbatim>\<open>buildFrame\<close>, inverting any
  single bit \<open>k\<close> of any byte \<open>i\<close> (head, length, command, sequence number, payload,
  checksum or tail) makes \<^verbatim>\<open>parseFrame\<close>, called with the original length, return an
  error: never success.
\<close>
theorem single_bit_flip_rejected:
  assumes "unat payloadLen + 10 \<le> unat outBufLen"
      and "unat outBufLen \<le> length outBuf"
      and "length payload = unat payloadLen"
  shows "\<exists>buf n.
           buildFrame commandID seq (Some payload) payloadLen outBuf outBufLen = Inr (buf, n)
         \<and> unat n = unat payloadLen + 10
         \<and> (\<forall>i < unat n. \<forall>k < 8. \<exists>e out'.
                parseFrame (flip_bit (take (unat n) buf) i k) n out = Inl (e, out') \<and> error_code e \<noteq> 0)"
proof -
  have bnd: "unat payloadLen + 10 < 65536"
    using assms(1) unsigned_less[of outBufLen, where 'a=nat] by simp
  have un: "unat (payloadLen + 10) = unat payloadLen + 10"
    using bnd by (simp add: unat_word_ariths)
  have tk: "take (unat payloadLen) payload = payload" using assms(3) by simp
  have B: "buildFrame commandID seq (Some payload) payloadLen outBuf outBufLen =
        Inr (frame_layout commandID seq payload @ drop (unat payloadLen + 10) outBuf, payloadLen + 10)"
    using buildFrame_layout[OF assms(1,2), of payload commandID seq] assms(3) tk by simp
  have T: "take (unat (payloadLen + 10)) (frame_layout commandID seq payload @ drop (unat payloadLen + 10) outBuf)
           = frame_layout commandID seq payload"
    using un assms(3) by simp
  have n: "payloadLen + 10 = of_nat (length payload + 10)" using assms(3) by simp
  have len: "length payload + 10 < 65536" using bnd assms(3) by simp
  have rej: "\<exists>e out'. parseFrame (flip_bit (frame_layout commandID seq payload) i k) (of_nat (length payload + 10)) out = Inl (e, out')
               \<and> error_code e \<noteq> 0"
    if "i < unat payloadLen + 10" "k < 8" for i k
  proof -
    have m: "(push_bit k 1 :: u8) \<noteq> 0"
    proof
      assume z: "(push_bit k 1 :: u8) = 0"
      have "bit (push_bit k 1 :: u8) k" using that(2) by (simp add: bit_simps)
      then show False unfolding z by simp
    qed
    have i': "i < length payload + 10" using that(1) assms(3) by simp
    have "\<And>r. parseFrame (flip_bit (frame_layout commandID seq payload) i k) (of_nat (length payload + 10)) out \<noteq> Inr r"
      unfolding flip_bit_def by (rule frame_layout_flip_rejected[OF len i' m])
    then obtain e out' where "parseFrame (flip_bit (frame_layout commandID seq payload) i k) (of_nat (length payload + 10)) out = Inl (e, out')"
      by (cases "parseFrame (flip_bit (frame_layout commandID seq payload) i k) (of_nat (length payload + 10)) out") auto
    moreover have "error_code e \<noteq> 0" by (cases e) simp_all
    ultimately show ?thesis by blast
  qed
  show ?thesis
    unfolding B
    apply (intro exI conjI)
      apply (rule refl)
     apply (rule un)
    unfolding T unfolding n un
    using rej assms(3) un apply simp
    done
qed

theorem single_bit_flip_rejected_witness:
  "unat (1 :: u16) + 10 \<le> unat (16 :: u16) \<and> unat (16 :: u16) \<le> length (replicate 16 (0 :: u8))
   \<and> length [3 :: u8] = unat (1 :: u16)
   \<and> (\<exists>buf n. buildFrame 1 2 (Some [3]) 1 (replicate 16 0) 16 = Inr (buf, n) \<and> unat n = 11
         \<and> (6 :: nat) < unat n \<and> (0 :: nat) < 8
         \<and> (\<exists>e out'. parseFrame (flip_bit (take (unat n) buf) 6 0) n
                 \<lparr>pCmd = 0, pSeq = 0, pPayload = None, pPayloadLen = None\<rparr> = Inl (e, out')
               \<and> error_code e \<noteq> 0))"
  using single_bit_flip_rejected[of 1 16 "replicate 16 0" "[3]" 1 2
      "\<lparr>pCmd = 0, pSeq = 0, pPayload = None, pPayloadLen = None\<rparr>"]
  by fastforce

text \<open>
  Claim C7 (minimum length). The guard \<^verbatim>\<open>inLen < 8\<close> of \<^verbatim>\<open>parseFrame\<close> lets inputs of 8
  and 9 bytes through, although a frame with no payload has 10 bytes. For such an input
  with the head and tail markers in place and a length field that matches the input
  length (so the length field is 2 or 3), \<^verbatim>\<open>parseFrame\<close> does not return the length error:
  it returns 0 or the checksum error, and it has set the command and sequence number from
  bytes 4 and 5 and \<^verbatim>\<open>*pPayloadLen\<close> to the length field minus 4 modulo \<open>2^16\<close>, that is
  65534 or 65535. The call is one with \<^verbatim>\<open>pPayload = NULL\<close>, so that no payload is copied: with
  a payload buffer the function would go on to \<^verbatim>\<open>memcpy\<close> 65534 or 65535 bytes out of an
  input of 8 or 9, which C leaves undefined.
\<close>

theorem parseFrame_short_input:
  assumes "inLen = 8 \<or> inLen = 9"
      and "length inBuf = unat inLen"
      and "inBuf ! 0 = FRAME_HEAD_0" and "inBuf ! 1 = FRAME_HEAD_1"
      and "inBuf ! (unat inLen - 2) = FRAME_TAIL_0" and "inBuf ! (unat inLen - 1) = FRAME_TAIL_1"
      and "lengthField = (ucast (inBuf ! 2) :: u16) OR push_bit 8 (ucast (inBuf ! 3) :: u16)"
      and "6 + lengthField = inLen"
      and "pPayload out = None"
      and "pPayloadLen out = Some l"
      and "out' = out\<lparr>pCmd := inBuf ! 4, pSeq := inBuf ! 5, pPayloadLen := Some (lengthField - 4)\<rparr>"
  shows "(lengthField = 2 \<or> lengthField = 3)
       \<and> (parseFrame inBuf inLen out = Inr out'
          \<or> parseFrame inBuf inLen out = Inl (ChecksumMismatch, out'))
       \<and> (unat (lengthField - 4) = 65534 \<or> unat (lengthField - 4) = 65535)
       \<and> (\<forall>cmd seq p ob obl buf n. buildFrame cmd seq p 0 ob obl = Inr (buf, n) \<longrightarrow> n = 10)"
proof -
  have lf: "lengthField = 2 \<or> lengthField = 3"
  proof -
    have "lengthField = inLen - 6" using assms(8) by (simp add: algebra_simps)
    then show ?thesis using assms(1) by auto
  qed
  have ge: "\<not> inLen < 8" using assms(1) by auto
  have pl: "unat (lengthField - 4) = 65534 \<or> unat (lengthField - 4) = 65535"
    using lf by (auto simp add: unsigned_minus_1_eq_mask mask_eq_exp_minus_1)
  have b: "\<forall>cmd seq p ob obl buf n. buildFrame cmd seq p 0 ob obl = Inr (buf, n) \<longrightarrow> n = 10"
    by (auto simp add: buildFrame_def Let_def split: if_splits option.splits)
  have p: "parseFrame inBuf inLen out = Inr out'
         \<or> parseFrame inBuf inLen out = Inl (ChecksumMismatch, out')"
    unfolding parseFrame_def Let_def assms(11)
    using ge assms(3-10) by simp
  show ?thesis using lf pl b p by blast
qed

text \<open>An input of 8 bytes that \<^verbatim>\<open>parseFrame\<close> accepts, with a payload length of 65534.\<close>

lemma parseFrame_accepts_8_bytes:
  "parseFrame [0xAA, 0x55, 2, 0, 0xFF, 0xFF, 0x55, 0xAA] 8
     \<lparr>pCmd = 0, pSeq = 0, pPayload = None, pPayloadLen = Some 0\<rparr>
   = Inr \<lparr>pCmd = 0xFF, pSeq = 0xFF, pPayload = None, pPayloadLen = Some 65534\<rparr>"
  by code_simp

theorem parseFrame_short_input_witness:
  "((8 :: u16) = 8 \<or> (8 :: u16) = 9)
   \<and> length [0xAA, 0x55, 2, 0, 0xFF, 0xFF, 0x55, 0xAA :: u8] = unat (8 :: u16)
   \<and> [0xAA, 0x55, 2, 0, 0xFF, 0xFF, 0x55, 0xAA] ! 0 = FRAME_HEAD_0
   \<and> [0xAA, 0x55, 2, 0, 0xFF, 0xFF, 0x55, 0xAA] ! 1 = FRAME_HEAD_1
   \<and> [0xAA, 0x55, 2, 0, 0xFF, 0xFF, 0x55, 0xAA] ! (unat (8 :: u16) - 2) = FRAME_TAIL_0
   \<and> [0xAA, 0x55, 2, 0, 0xFF, 0xFF, 0x55, 0xAA] ! (unat (8 :: u16) - 1) = FRAME_TAIL_1
   \<and> (parseFrame [0xAA, 0x55, 2, 0, 0xFF, 0xFF, 0x55, 0xAA] 8
          \<lparr>pCmd = 0, pSeq = 0, pPayload = None, pPayloadLen = Some 0\<rparr>
        = Inr \<lparr>pCmd = 0xFF, pSeq = 0xFF, pPayload = None, pPayloadLen = Some 65534\<rparr>
      \<or> parseFrame [0xAA, 0x55, 2, 0, 0xFF, 0xFF, 0x55, 0xAA] 8
          \<lparr>pCmd = 0, pSeq = 0, pPayload = None, pPayloadLen = Some 0\<rparr>
        = Inl (ChecksumMismatch, \<lparr>pCmd = 0xFF, pSeq = 0xFF, pPayload = None, pPayloadLen = Some 65534\<rparr>))"
proof -
  have h: "[0xAA, 0x55, 2, 0, 0xFF, 0xFF, 0x55, 0xAA :: u8] ! 0 = FRAME_HEAD_0"
          "[0xAA, 0x55, 2, 0, 0xFF, 0xFF, 0x55, 0xAA :: u8] ! 1 = FRAME_HEAD_1"
          "[0xAA, 0x55, 2, 0, 0xFF, 0xFF, 0x55, 0xAA :: u8] ! (unat (8 :: u16) - 2) = FRAME_TAIL_0"
          "[0xAA, 0x55, 2, 0, 0xFF, 0xFF, 0x55, 0xAA :: u8] ! (unat (8 :: u16) - 1) = FRAME_TAIL_1"
    by (simp_all add: FRAME_HEAD_0_def FRAME_HEAD_1_def FRAME_TAIL_0_def FRAME_TAIL_1_def)
  have lf: "(2 :: u16) = (ucast ([0xAA, 0x55, 2, 0, 0xFF, 0xFF, 0x55, 0xAA :: u8] ! 2) :: u16)
        OR push_bit 8 (ucast ([0xAA, 0x55, 2, 0, 0xFF, 0xFF, 0x55, 0xAA :: u8] ! 3) :: u16)"
    by simp
  have l: "length [0xAA, 0x55, 2, 0, 0xFF, 0xFF, 0x55, 0xAA :: u8] = unat (8 :: u16)" by simp
  have s: "6 + (2 :: u16) = 8" by simp
  have n: "pPayload \<lparr>pCmd = 0, pSeq = 0, pPayload = None, pPayloadLen = Some (0 :: u16)\<rparr> = None"
    by simp
  have pl: "pPayloadLen \<lparr>pCmd = 0, pSeq = 0, pPayload = None, pPayloadLen = Some (0 :: u16)\<rparr> = Some 0"
    by simp
  have o: "\<lparr>pCmd = 0xFF, pSeq = 0xFF, pPayload = None, pPayloadLen = Some (65534 :: u16)\<rparr>
           = \<lparr>pCmd = 0, pSeq = 0, pPayload = None, pPayloadLen = Some 0\<rparr>
               \<lparr>pCmd := [0xAA, 0x55, 2, 0, 0xFF, 0xFF, 0x55, 0xAA] ! 4,
                pSeq := [0xAA, 0x55, 2, 0, 0xFF, 0xFF, 0x55, 0xAA] ! 5,
                pPayloadLen := Some (2 - 4)\<rparr>"
    by simp
  note t = parseFrame_short_input[of 8 "[0xAA, 0x55, 2, 0, 0xFF, 0xFF, 0x55, 0xAA]" 2
        "\<lparr>pCmd = 0, pSeq = 0, pPayload = None, pPayloadLen = Some 0\<rparr>" 0
        "\<lparr>pCmd = 0xFF, pSeq = 0xFF, pPayload = None, pPayloadLen = Some 65534\<rparr>",
        OF _ l h lf s n pl o]
  have P: "parseFrame [0xAA, 0x55, 2, 0, 0xFF, 0xFF, 0x55, 0xAA] 8
          \<lparr>pCmd = 0, pSeq = 0, pPayload = None, pPayloadLen = Some 0\<rparr>
        = Inr \<lparr>pCmd = 0xFF, pSeq = 0xFF, pPayload = None, pPayloadLen = Some 65534\<rparr>
      \<or> parseFrame [0xAA, 0x55, 2, 0, 0xFF, 0xFF, 0x55, 0xAA] 8
          \<lparr>pCmd = 0, pSeq = 0, pPayload = None, pPayloadLen = Some 0\<rparr>
        = Inl (ChecksumMismatch, \<lparr>pCmd = 0xFF, pSeq = 0xFF, pPayload = None, pPayloadLen = Some 65534\<rparr>)"
    using t by simp
  show ?thesis
    by (intro conjI h l P) simp
qed

section \<open>The device state engine: sending a frame\<close>

lemma buildFrame_NULL: "buildFrame c s None 0 ob obl = buildFrame c s (Some []) 0 ob obl"
  by (simp add: buildFrame_def)

lemma parseFrame_frame_layout:
  assumes "length p + 10 < 65536"
  shows "parseFrame (frame_layout c s p) (of_nat (length p + 10)) out = Inr (parsed_out out c s p)"
  unfolding frame_layout_def Let_def append_Cons append_Nil parseFrame_shape[OF assms] le16_decode
  by simp

lemma app_send_frame_with_seq_layout:
  assumes "length (tx_frame_buf s) = TX_FRAME_BUF_SIZE"
      and "unat len + 10 \<le> TX_FRAME_BUF_SIZE"
      and "unat len \<le> length p"
  shows "app_send_frame_with_seq s cmd seq (Some p) len = send_result s cmd seq (take (unat len) p)"
proof -
  have a: "unat len + 10 \<le> unat (of_nat TX_FRAME_BUF_SIZE :: u16)"
    using assms(2) by (simp add: TX_FRAME_BUF_SIZE_def)
  have b: "unat (of_nat TX_FRAME_BUF_SIZE :: u16) \<le> length (tx_frame_buf s)"
    using assms(1) by (simp add: TX_FRAME_BUF_SIZE_def)
  have l: "length (take (unat len) p) = unat len" using assms(3) by simp
  have n: "(of_nat (unat len + 10) :: u16) = len + 10" by simp
  show ?thesis
    unfolding app_send_frame_with_seq_def buildFrame_layout[OF a b assms(3)] send_result_def Let_def
    by (simp only: sum.case prod.case n l)
qed

lemma app_send_frame_with_seq_NULL:
  assumes "length (tx_frame_buf s) = TX_FRAME_BUF_SIZE"
  shows "app_send_frame_with_seq s cmd seq None 0 = send_result s cmd seq []"
proof -
  have "app_send_frame_with_seq s cmd seq None 0 = app_send_frame_with_seq s cmd seq (Some []) 0"
    by (simp add: app_send_frame_with_seq_def buildFrame_NULL)
  also have "\<dots> = send_result s cmd seq (take (unat (0 :: u16)) [])"
    by (rule app_send_frame_with_seq_layout) (use assms in \<open>simp_all add: TX_FRAME_BUF_SIZE_def\<close>)
  finally show ?thesis by simp
qed

lemma txBufferFreeSpace_empty:
  "txBufferFreeSpace \<lparr>tx_buf = b, tx_head = 0, tx_tail = 0\<rparr> = 65534"
  by (simp add: txBufferFreeSpace_def TX_BUFFER_SIZE_def smod_int_alt_def)

lemma send_result_queued:
  assumes "length p + 12 \<le> unat (txBufferFreeSpace (tx_buffer s))"
  shows "log (send_result s cmd seq p) = log s @ [TxQueued cmd seq (of_nat (length p + 10))]"
    and "tx_frame_buf (send_result s cmd seq p)
         = frame_layout cmd seq p @ drop (length p + 10) (tx_frame_buf s)"
proof -
  have b: "length p + 12 < 65536"
    using assms unsigned_less[of "txBufferFreeSpace (tx_buffer s)", where 'a=nat] by simp
  have n: "unat (of_nat (length p + 10) + 2 :: u16) = length p + 12"
    using b by (simp add: unat_word_ariths unat_of_nat)
  have "\<not> (of_nat (length p + 10) + 2 :: u16) > txBufferFreeSpace (tx_buffer s)"
    using n assms by (simp add: word_less_nat_alt del: of_nat_add)
  then obtain t where "enqueueTxFrame (tx_buffer s)
      (frame_layout cmd seq p @ drop (length p + 10) (tx_frame_buf s))
      (of_nat (length p + 10)) = Inr t"
    by (simp add: enqueueTxFrame_def Let_def del: of_nat_add)
  then show "log (send_result s cmd seq p) = log s @ [TxQueued cmd seq (of_nat (length p + 10))]"
    and "tx_frame_buf (send_result s cmd seq p)
         = frame_layout cmd seq p @ drop (length p + 10) (tx_frame_buf s)"
    by (simp_all add: send_result_def Let_def del: of_nat_add)
qed

lemma handle_get_status:
  assumes "length (tx_frame_buf s) = TX_FRAME_BUF_SIZE"
  shows "app_handle_command s CMD_GET_STATUS seq payload payload_len
           = send_result s CMD_STATUS_RESPONSE seq
               [mode_value (mode s), status_value (status s), 0, 0, 0, 0, 0, 0]"
proof -
  have "app_handle_command s CMD_GET_STATUS seq payload payload_len
        = app_send_frame_with_seq s CMD_STATUS_RESPONSE seq
            (Some [mode_value (mode s), status_value (status s), 0, 0, 0, 0, 0, 0]) 8"
    by (simp add: app_handle_command_def CMD_GET_STATUS_def CMD_PING_def)
  also have "\<dots> = send_result s CMD_STATUS_RESPONSE seq
       (take (unat (8 :: u16)) [mode_value (mode s), status_value (status s), 0, 0, 0, 0, 0, 0])"
    by (rule app_send_frame_with_seq_layout) (use assms(1) in \<open>simp_all add: TX_FRAME_BUF_SIZE_def\<close>)
  finally show ?thesis by simp
qed

lemma configure_loop_frame:
  "tx_frame_buf (configure_loop k s payload payload_len offset) = tx_frame_buf s
   \<and> tx_buffer (configure_loop k s payload payload_len offset) = tx_buffer s
   \<and> log (configure_loop k s payload payload_len offset) = log s
   \<and> num_channels (configure_loop k s payload payload_len offset) = num_channels s"
  by (induction k arbitrary: s offset) (simp_all add: Let_def)

lemma configure_loop_present:
  "configure_loop k s payload payload_len offset
   = configure_loop (min k ((unat payload_len - unat offset) div 6)) s payload payload_len offset"
proof (induction k arbitrary: s offset)
  case 0
  then show ?case by simp
next
  case (Suc k)
  show ?case
  proof (cases "unat offset + 6 \<le> unat payload_len")
    case True
    have b: "unat payload_len < 65536" using unsigned_less[of payload_len, where 'a=nat] by simp
    have u: "unat (offset + 6) = unat offset + 6"
      using True b by (simp add: unat_word_ariths)
    obtain m where m: "(unat payload_len - unat offset) div 6 = Suc m"
      using True by (cases "(unat payload_len - unat offset) div 6") auto
    have m': "(unat payload_len - unat (offset + 6)) div 6 = m"
      using m True unfolding u by (simp add: Suc_diff_le diff_diff_left) 
    define s' where "s' =
       (if payload ! unat offset < num_channels s
        then s\<lparr>channels := (channels s)[unat (payload ! unat offset) :=
                 \<lparr>enabled = (if load32 payload (unat offset + 1) > 0 then 1 else 0),
                  sample_rate = load32 payload (unat offset + 1),
                  format = payload ! (unat offset + 5)\<rparr>]\<rparr>
        else s)"
    have st: "configure_loop (Suc j) s payload payload_len offset
              = configure_loop j s' payload payload_len (offset + 6)" for j
      using True by (simp add: Let_def s'_def)
    have "configure_loop (Suc k) s payload payload_len offset
          = configure_loop k s' payload payload_len (offset + 6)" by (rule st)
    also have "\<dots> = configure_loop (min k m) s' payload payload_len (offset + 6)"
      using Suc.IH[of s' "offset + 6"] unfolding m' .
    also have "\<dots> = configure_loop (Suc (min k m)) s payload payload_len offset"
      by (rule st[symmetric])
    finally show ?thesis unfolding m by simp
  next
    case False
    then have "(unat payload_len - unat offset) div 6 = 0" by simp
    then show ?thesis using False by simp
  qed
qed

lemma handle_configure_stream:
  assumes "length (tx_frame_buf s) = TX_FRAME_BUF_SIZE"
  shows "app_handle_command s CMD_CONFIGURE_STREAM seq payload payload_len =
     (if payload_len < 1 then send_result s CMD_NACK seq [0x01, 0x01]
      else send_result (configure_loop (unat (payload ! 0)) s payload payload_len 1) CMD_ACK seq [])"
proof (cases "payload_len < 1")
  case True
  have "app_handle_command s CMD_CONFIGURE_STREAM seq payload payload_len
        = app_send_frame_with_seq s CMD_NACK seq (Some [0x01, 0x01]) 2"
    using True
    by (simp add: app_handle_command_def CMD_CONFIGURE_STREAM_def CMD_PING_def CMD_GET_STATUS_def
        CMD_GET_DEVICE_INFO_def CMD_SET_MODE_CONTINUOUS_def CMD_SET_MODE_TRIGGER_def
        CMD_START_STREAM_def CMD_STOP_STREAM_def)
  also have "\<dots> = send_result s CMD_NACK seq (take (unat (2 :: u16)) [0x01, 0x01])"
    by (rule app_send_frame_with_seq_layout) (use assms in \<open>simp_all add: TX_FRAME_BUF_SIZE_def\<close>)
  finally show ?thesis using True by simp
next
  case False
  let ?s = "configure_loop (unat (payload ! 0)) s payload payload_len 1"
  have l: "length (tx_frame_buf ?s) = TX_FRAME_BUF_SIZE"
    using assms by (simp add: configure_loop_frame)
  have "app_handle_command s CMD_CONFIGURE_STREAM seq payload payload_len
        = app_send_frame_with_seq ?s CMD_ACK seq None 0"
    using False
    by (simp add: app_handle_command_def CMD_CONFIGURE_STREAM_def CMD_PING_def CMD_GET_STATUS_def
        CMD_GET_DEVICE_INFO_def CMD_SET_MODE_CONTINUOUS_def CMD_SET_MODE_TRIGGER_def
        CMD_START_STREAM_def CMD_STOP_STREAM_def)
  also have "\<dots> = send_result ?s CMD_ACK seq []"
    by (rule app_send_frame_with_seq_NULL[OF l])
  finally show ?thesis using False by simp
qed

section \<open>Claims about command handling\<close>

text \<open>
  Claim C10, as amended. While the mode is Continuous and the stream is Stopped, handling
  a GetStatus request builds a StatusResponse frame that echoes the request's sequence
  number and passes it to the TX queue; its payload is the eight bytes
  \<open>[0, 0, 0, 0, 0, 0, 0, 0]\<close>: mode, stream status, error flag, error code and four
  more zero bytes (\<^verbatim>\<open>sizeof(status_payload)\<close> is 8). Parsing the frame gives back the
  command, the sequence number, the payload length 8 and these bytes.
\<close>

theorem get_status_response:
  assumes "length (tx_frame_buf s) = TX_FRAME_BUF_SIZE"
      and "mode s = MODE_CONTINUOUS" and "status s = STATUS_STOPPED"
  shows "app_handle_command s CMD_GET_STATUS seq payload payload_len
           = send_result s CMD_STATUS_RESPONSE seq [0, 0, 0, 0, 0, 0, 0, 0]
       \<and> parseFrame (frame_layout CMD_STATUS_RESPONSE seq [0, 0, 0, 0, 0, 0, 0, 0]) 18
            \<lparr>pCmd = 0, pSeq = 0, pPayload = Some (replicate 8 0xFF), pPayloadLen = Some 0\<rparr>
           = Inr \<lparr>pCmd = CMD_STATUS_RESPONSE, pSeq = seq,
                  pPayload = Some [0, 0, 0, 0, 0, 0, 0, 0], pPayloadLen = Some 8\<rparr>"
proof -
  have "app_handle_command s CMD_GET_STATUS seq payload payload_len
        = app_send_frame_with_seq s CMD_STATUS_RESPONSE seq (Some [0, 0, 0, 0, 0, 0, 0, 0]) 8"
    using assms(2,3) by (simp add: app_handle_command_def CMD_GET_STATUS_def CMD_PING_def)
  also have "\<dots> = send_result s CMD_STATUS_RESPONSE seq (take (unat (8 :: u16)) [0, 0, 0, 0, 0, 0, 0, 0])"
    by (rule app_send_frame_with_seq_layout) (use assms(1) in \<open>simp_all add: TX_FRAME_BUF_SIZE_def\<close>)
  finally have A: "app_handle_command s CMD_GET_STATUS seq payload payload_len
           = send_result s CMD_STATUS_RESPONSE seq [0, 0, 0, 0, 0, 0, 0, 0]" by simp
  have "parseFrame (frame_layout CMD_STATUS_RESPONSE seq [0, 0, 0, 0, 0, 0, 0, 0 :: u8])
          (of_nat (length [0, 0, 0, 0, 0, 0, 0, 0 :: u8] + 10))
          \<lparr>pCmd = 0, pSeq = 0, pPayload = Some (replicate 8 0xFF), pPayloadLen = Some 0\<rparr>
        = Inr (parsed_out \<lparr>pCmd = 0, pSeq = 0, pPayload = Some (replicate 8 0xFF), pPayloadLen = Some 0\<rparr>
                 CMD_STATUS_RESPONSE seq [0, 0, 0, 0, 0, 0, 0, 0])"
    by (rule parseFrame_frame_layout) simp
  then have B: "parseFrame (frame_layout CMD_STATUS_RESPONSE seq [0, 0, 0, 0, 0, 0, 0, 0]) 18
            \<lparr>pCmd = 0, pSeq = 0, pPayload = Some (replicate 8 0xFF), pPayloadLen = Some 0\<rparr>
           = Inr \<lparr>pCmd = CMD_STATUS_RESPONSE, pSeq = seq,
                  pPayload = Some [0, 0, 0, 0, 0, 0, 0, 0], pPayloadLen = Some 8\<rparr>"
    by (simp add: parsed_out_def eval_nat_numeral)
  show ?thesis using A B by simp
qed

theorem get_status_response_witness:
  "length (tx_frame_buf (app_init rand_zero)) = TX_FRAME_BUF_SIZE
   \<and> mode (app_init rand_zero) = MODE_CONTINUOUS \<and> status (app_init rand_zero) = STATUS_STOPPED
   \<and> app_handle_command (app_init rand_zero) CMD_GET_STATUS 7 [] 0
        = send_result (app_init rand_zero) CMD_STATUS_RESPONSE 7 [0, 0, 0, 0, 0, 0, 0, 0]
   \<and> parseFrame (frame_layout CMD_STATUS_RESPONSE 7 [0, 0, 0, 0, 0, 0, 0, 0]) 18
            \<lparr>pCmd = 0, pSeq = 0, pPayload = Some (replicate 8 0xFF), pPayloadLen = Some 0\<rparr>
           = Inr \<lparr>pCmd = CMD_STATUS_RESPONSE, pSeq = 7,
                  pPayload = Some [0, 0, 0, 0, 0, 0, 0, 0], pPayloadLen = Some 8\<rparr>"
  using get_status_response[of "app_init rand_zero" 7 "[]" 0]
  by (simp add: app_init_def)

text \<open>
  Claim C10 as stated fails: after \<^verbatim>\<open>app_init\<close>, the answer to GetStatus with sequence
  number 7 is a frame of 18 bytes with length field 12, that is a payload of eight bytes,
  not four.
\<close>

theorem get_status_payload_counterexample:
  "log (app_handle_command (app_init rand_zero) CMD_GET_STATUS 7 [] 0)
     = [TxQueued CMD_STATUS_RESPONSE 7 18]
   \<and> take 18 (tx_frame_buf (app_handle_command (app_init rand_zero) CMD_GET_STATUS 7 [] 0))
     = [0xAA, 0x55, 0x0C, 0x00, 0x82, 0x07, 0, 0, 0, 0, 0, 0, 0, 0, 0xF0, 0x15, 0x55, 0xAA]"
proof -
  have i: "length (tx_frame_buf (app_init rand_zero)) = TX_FRAME_BUF_SIZE"
    by (simp add: app_init_def)
  have h: "app_handle_command (app_init rand_zero) CMD_GET_STATUS 7 [] 0
           = send_result (app_init rand_zero) CMD_STATUS_RESPONSE 7 [0, 0, 0, 0, 0, 0, 0, 0]"
    unfolding handle_get_status[OF i] by (simp add: app_init_def)
  have f: "frame_layout CMD_STATUS_RESPONSE 7 [0, 0, 0, 0, 0, 0, 0, 0]
           = [0xAA, 0x55, 0x0C, 0x00, 0x82, 0x07, 0, 0, 0, 0, 0, 0, 0, 0, 0xF0, 0x15, 0x55, 0xAA]"
    by code_simp
  show ?thesis
    unfolding h
    using send_result_queued[of "[0, 0, 0, 0, 0, 0, 0, 0]" "app_init rand_zero" CMD_STATUS_RESPONSE 7]
    by (simp add: f app_init_def txBufferFreeSpace_empty)
qed

section \<open>The ring buffers\<close>

lemma mod_ring_neq:
  fixes t d N :: nat
  assumes "t < N" and "0 < d" and "d < N"
  shows "(t + d) mod N \<noteq> t"
proof (cases "t + d < N")
  case True
  then show ?thesis using assms by simp
next
  case False
  then have "(t + d) mod N = t + d - N"
    using assms by (simp add: mod_if)
  then show ?thesis using assms False by simp
qed

lemma ring_write_length [simp]: "length (ring_write b t xs) = length b"
  by (induction xs arbitrary: b t) simp_all

lemma ring_write_other:
  assumes "\<forall>i < length xs. (t + i) mod 65535 \<noteq> j" and "t < 65535"
  shows "ring_write b t xs ! j = b ! j"
  using assms
proof (induction xs arbitrary: b t)
  case Nil
  then show ?case by simp
next
  case (Cons x xs)
  have t: "t \<noteq> j" using Cons.prems(1)[rule_format, of 0] Cons.prems(2) by simp
  have "\<forall>i < length xs. ((t + 1) mod 65535 + i) mod 65535 \<noteq> j"
  proof (intro allI impI)
    fix i assume "i < length xs"
    then have "(t + Suc i) mod 65535 \<noteq> j" using Cons.prems(1) by auto
    then show "((t + 1) mod 65535 + i) mod 65535 \<noteq> j" by (simp add: mod_add_left_eq)
  qed
  then have "ring_write (b[t := x]) ((t + 1) mod 65535) xs ! j = b[t := x] ! j"
    by (rule Cons.IH) simp
  then show ?case using t by simp
qed

lemma ring_write_nth:
  assumes "t < 65535" and "length b = 65535" and "length xs \<le> 65535" and "i < length xs"
  shows "ring_write b t xs ! ((t + i) mod 65535) = xs ! i"
  using assms
proof (induction xs arbitrary: b t i)
  case Nil
  then show ?case by simp
next
  case (Cons x xs)
  show ?case
  proof (cases i)
    case 0
    have "\<forall>k < length xs. ((t + 1) mod 65535 + k) mod 65535 \<noteq> t"
    proof (intro allI impI)
      fix k assume k: "k < length xs"
      have "(t + (1 + k)) mod 65535 \<noteq> t"
        by (rule mod_ring_neq) (use Cons.prems k in simp_all)
      then show "((t + 1) mod 65535 + k) mod 65535 \<noteq> t"
        by (simp add: mod_add_left_eq add.assoc)
    qed
    then have "ring_write (b[t := x]) ((t + 1) mod 65535) xs ! t = b[t := x] ! t"
      by (rule ring_write_other) simp
    then show ?thesis using 0 Cons.prems by simp
  next
    case (Suc i')
    have "ring_write (b[t := x]) ((t + 1) mod 65535) xs ! (((t + 1) mod 65535 + i') mod 65535) = xs ! i'"
      by (rule Cons.IH) (use Cons.prems Suc in simp_all)
    then show ?thesis using Suc by (simp add: mod_add_left_eq)
  qed
qed

lemma unat_ring_index: "unat (of_nat (k mod 65535) :: u16) = k mod 65535"
proof -
  have "k mod 65535 < 65536" by (rule less_trans[of _ 65535]) simp_all
  then show ?thesis by (simp add: unat_of_nat)
qed

lemma foldl_rx_put:
  "rx_buf (foldl rx_put r xs) = ring_write (rx_buf r) (unat (rx_tail r)) xs
   \<and> rx_head (foldl rx_put r xs) = rx_head r
   \<and> (xs \<noteq> [] \<longrightarrow> unat (rx_tail (foldl rx_put r xs)) = (unat (rx_tail r) + length xs) mod 65535)"
proof (induction xs arbitrary: r)
  case Nil
  then show ?case by simp
next
  case (Cons x xs)
  have t: "unat (rx_tail (rx_put r x)) = (unat (rx_tail r) + 1) mod 65535"
    by (simp add: rx_put_def RX_BUFFER_SIZE_def unat_ring_index)
  show ?case
  proof (cases "xs = []")
    case True
    then show ?thesis using t by (simp add: rx_put_def RX_BUFFER_SIZE_def)
  next
    case False
    then show ?thesis
      using Cons.IH[of "rx_put r x"] t
      by (simp add: rx_put_def mod_add_left_eq RX_BUFFER_SIZE_def)
  qed
qed

lemma foldl_tx_put:
  "tx_buf (foldl tx_put r xs) = ring_write (tx_buf r) (unat (tx_tail r)) xs
   \<and> tx_head (foldl tx_put r xs) = tx_head r
   \<and> (xs \<noteq> [] \<longrightarrow> unat (tx_tail (foldl tx_put r xs)) = (unat (tx_tail r) + length xs) mod 65535)"
proof (induction xs arbitrary: r)
  case Nil
  then show ?case by simp
next
  case (Cons x xs)
  have t: "unat (tx_tail (tx_put r x)) = (unat (tx_tail r) + 1) mod 65535"
    by (simp add: tx_put_def TX_BUFFER_SIZE_def unat_ring_index)
  show ?case
  proof (cases "xs = []")
    case True
    then show ?thesis using t by (simp add: tx_put_def TX_BUFFER_SIZE_def)
  next
    case False
    then show ?thesis
      using Cons.IH[of "tx_put r x"] t
      by (simp add: tx_put_def mod_add_left_eq TX_BUFFER_SIZE_def)
  qed
qed

lemma smod_nonneg: "0 \<le> k \<Longrightarrow> k smod 65535 = k mod (65535 :: int)"
  by (simp add: smod_int_alt_def sgn_if)

lemma rxBufferFreeSpace_unat:
  assumes "rx_wf r"
  shows "unat (rxBufferFreeSpace r) = (unat (rx_head r) + 65535 - unat (rx_tail r) - 1) mod 65535"
proof -
  have h: "unat (rx_head r) < 65535" and t: "unat (rx_tail r) < 65535"
    using assms by (simp_all add: rx_wf_def RX_BUFFER_SIZE_def)
  let ?k = "unat (rx_head r) + 65535 - unat (rx_tail r) - 1"
  have N: "int RX_BUFFER_SIZE = 65535" by (simp add: RX_BUFFER_SIZE_def)
  have a: "uint (rx_head r) + 65535 - uint (rx_tail r) - 1 = int ?k"
    unfolding uint_nat using h t by linarith
  have b: "int ?k smod 65535 = int (?k mod 65535)"
    using smod_nonneg[of "int ?k"] by (simp only: zmod_int of_nat_numeral)
  have "rxBufferFreeSpace r = of_nat (?k mod 65535)"
    unfolding rxBufferFreeSpace_def N a b by (simp only: of_int_of_nat_eq)
  then show ?thesis by (simp only: unat_ring_index)
qed

lemma txBufferFreeSpace_unat:
  assumes "tx_wf r"
  shows "unat (txBufferFreeSpace r) = (unat (tx_head r) + 65535 - unat (tx_tail r) - 1) mod 65535"
proof -
  have h: "unat (tx_head r) < 65535" and t: "unat (tx_tail r) < 65535"
    using assms by (simp_all add: tx_wf_def TX_BUFFER_SIZE_def)
  let ?k = "unat (tx_head r) + 65535 - unat (tx_tail r) - 1"
  have N: "int TX_BUFFER_SIZE = 65535" by (simp add: TX_BUFFER_SIZE_def)
  have a: "uint (tx_head r) + 65535 - uint (tx_tail r) - 1 = int ?k"
    unfolding uint_nat using h t by linarith
  have b: "int ?k smod 65535 = int (?k mod 65535)"
    using smod_nonneg[of "int ?k"] by (simp only: zmod_int of_nat_numeral)
  have "txBufferFreeSpace r = of_nat (?k mod 65535)"
    unfolding txBufferFreeSpace_def N a b by (simp only: of_int_of_nat_eq)
  then show ?thesis by (simp only: unat_ring_index)
qed

lemma feedRxBuffer_effect:
  assumes "rx_wf r" and "unat len \<le> length data"
      and "free = (unat (rx_head r) + RX_BUFFER_SIZE - unat (rx_tail r) - 1) mod RX_BUFFER_SIZE"
      and "n = min (unat len) free"
      and "r' = fst (feedRxBuffer r data len)"
  shows "unat (snd (feedRxBuffer r data len)) = n
       \<and> free \<le> RX_BUFFER_SIZE - 1
       \<and> (rx_head r = rx_tail r \<longrightarrow> free = RX_BUFFER_SIZE - 1)
       \<and> rx_head r' = rx_head r
       \<and> unat (rx_tail r') = (unat (rx_tail r) + n) mod RX_BUFFER_SIZE
       \<and> length (rx_buf r') = RX_BUFFER_SIZE
       \<and> (\<forall>i < n. rx_buf r' ! ((unat (rx_tail r) + i) mod RX_BUFFER_SIZE) = data ! i)
       \<and> (\<forall>j < RX_BUFFER_SIZE. (\<forall>i < n. j \<noteq> (unat (rx_tail r) + i) mod RX_BUFFER_SIZE)
              \<longrightarrow> rx_buf r' ! j = rx_buf r ! j)"
proof -
  have N: "RX_BUFFER_SIZE = 65535" by (simp add: RX_BUFFER_SIZE_def)
  have h: "unat (rx_head r) < 65535" and t: "unat (rx_tail r) < 65535"
    and lb: "length (rx_buf r) = 65535"
    using assms(1) by (simp_all add: rx_wf_def N)
  have fr: "unat (rxBufferFreeSpace r) = free"
    using rxBufferFreeSpace_unat[OF assms(1)] assms(3) by (simp add: N)
  have fle: "free \<le> 65534"
  proof -
    have "free < 65535" unfolding assms(3) N by (rule mod_less_divisor) simp
    then show ?thesis by simp
  qed
  have fe: "rx_head r = rx_tail r \<longrightarrow> free = 65534"
    using t by (auto simp add: assms(3) N)
  define toWrite where "toWrite = (if len \<le> rxBufferFreeSpace r then len else rxBufferFreeSpace r)"
  have tw: "unat toWrite = n"
    using fr by (auto simp add: toWrite_def assms(4) word_le_nat_alt min_def)
  define xs where "xs = take n data"
  have lx: "length xs = n" using assms(2,4) by (simp add: xs_def)
  have F: "feedRxBuffer r data len = (foldl rx_put r xs, toWrite)"
    by (simp add: feedRxBuffer_def Let_def toWrite_def[symmetric] tw xs_def)
  have r': "r' = foldl rx_put r xs" using F assms(5) by simp
  note P = foldl_rx_put[of r xs]
  have nle: "n \<le> 65535" using fle assms(4) by simp
  have tail: "unat (rx_tail r') = (unat (rx_tail r) + n) mod 65535"
  proof (cases "xs = []")
    case True
    then have "n = 0" using lx by simp
    then show ?thesis using True t r' by simp
  next
    case False
    then show ?thesis using P lx r' by simp
  qed
  have wr: "\<forall>i < n. rx_buf r' ! ((unat (rx_tail r) + i) mod 65535) = data ! i"
  proof (intro allI impI)
    fix i assume i: "i < n"
    have "ring_write (rx_buf r) (unat (rx_tail r)) xs ! ((unat (rx_tail r) + i) mod 65535) = xs ! i"
      by (rule ring_write_nth) (use t lb lx nle i in simp_all)
    then show "rx_buf r' ! ((unat (rx_tail r) + i) mod 65535) = data ! i"
      using P r' i by (simp add: xs_def)
  qed
  have ot: "\<forall>j < 65535. (\<forall>i < n. j \<noteq> (unat (rx_tail r) + i) mod 65535) \<longrightarrow> rx_buf r' ! j = rx_buf r ! j"
  proof (intro allI impI)
    fix j assume "j < (65535 :: nat)" and d: "\<forall>i < n. j \<noteq> (unat (rx_tail r) + i) mod 65535"
    have "ring_write (rx_buf r) (unat (rx_tail r)) xs ! j = rx_buf r ! j"
      by (rule ring_write_other) (use d lx t in auto)
    then show "rx_buf r' ! j = rx_buf r ! j" using P r' by simp
  qed
  show ?thesis
    unfolding N using F tw fle fe P r' tail wr ot lb by simp
qed

lemma tx_advance_simps [simp]:
  "tx_buf (tx_advance t) = tx_buf t" "tx_tail (tx_advance t) = tx_tail t"
  "unat (tx_head (tx_advance t)) = (unat (tx_head t) + 1) mod 65535"
  by (simp_all add: tx_advance_def TX_BUFFER_SIZE_def unat_ring_index)

lemma foldl_tx_advance:
  assumes "unat (tx_head t) < 65535"
  shows "tx_buf (foldl (\<lambda>t i. tx_advance t) t xs) = tx_buf t
       \<and> tx_tail (foldl (\<lambda>t i. tx_advance t) t xs) = tx_tail t
       \<and> unat (tx_head (foldl (\<lambda>t i. tx_advance t) t xs)) = (unat (tx_head t) + length xs) mod 65535"
  using assms
proof (induction xs arbitrary: t)
  case Nil
  then show ?case by simp
next
  case (Cons x xs)
  have "unat (tx_head (tx_advance t)) < 65535" by simp
  from Cons.IH[OF this] show ?case by (simp add: mod_add_left_eq)
qed

lemma foldl_tx_copy:
  assumes "unat (tx_head t) < 65535" and "n \<le> length out"
  shows "\<exists>out' t'.
           foldl (\<lambda>(out, t) i. (out[i := tx_buf t ! unat (tx_head t)], tx_advance t)) (out, t) [0..<n]
             = (out', t')
         \<and> tx_buf t' = tx_buf t \<and> tx_tail t' = tx_tail t
         \<and> unat (tx_head t') = (unat (tx_head t) + n) mod 65535
         \<and> length out' = length out
         \<and> (\<forall>i < n. out' ! i = tx_buf t ! ((unat (tx_head t) + i) mod 65535))
         \<and> drop n out' = drop n out"
  using assms(2)
proof (induction n)
  case 0
  then show ?case using assms(1) by simp
next
  case (Suc n)
  let ?f = "\<lambda>(out, t) i. (out[i := tx_buf t ! unat (tx_head t)], tx_advance t)"
  from Suc obtain o1 t1 where
    1: "foldl ?f (out, t) [0..<n] = (o1, t1)"
    and b: "tx_buf t1 = tx_buf t" and tl: "tx_tail t1 = tx_tail t"
    and hd: "unat (tx_head t1) = (unat (tx_head t) + n) mod 65535"
    and ln: "length o1 = length out"
    and el: "\<forall>i < n. o1 ! i = tx_buf t ! ((unat (tx_head t) + i) mod 65535)"
    and dr: "drop n o1 = drop n out"
    by auto
  have 2: "foldl ?f (out, t) [0..<Suc n] = (o1[n := tx_buf t1 ! unat (tx_head t1)], tx_advance t1)"
    using 1 by simp
  have d: "drop (Suc n) (o1[n := tx_buf t1 ! unat (tx_head t1)]) = drop (Suc n) out"
  proof -
    have "drop (Suc n) (o1[n := tx_buf t1 ! unat (tx_head t1)]) = drop (Suc n) o1" by simp
    also have "\<dots> = drop 1 (drop n o1)" by simp
    also have "\<dots> = drop 1 (drop n out)" by (simp only: dr)
    finally show ?thesis by simp
  qed
  have e: "\<forall>i < Suc n. o1[n := tx_buf t1 ! unat (tx_head t1)] ! i = tx_buf t ! ((unat (tx_head t) + i) mod 65535)"
    using el b hd ln Suc.prems by (auto simp add: less_Suc_eq nth_list_update)
  show ?case
    unfolding 2 using b tl hd ln d e
    by (simp add: mod_add_left_eq mod_Suc_eq)
qed

lemma enqueueTxFrame_no_space:
  assumes "unat frameLen \<le> 65533"
      and "unat frameLen + 2 > unat (txBufferFreeSpace t)"
  shows "enqueueTxFrame t frame frameLen = Inl (TxNoSpace, t)"
proof -
  have "unat (frameLen + 2) = unat frameLen + 2"
    using assms(1) by (simp add: unat_word_ariths)
  then have "frameLen + 2 > txBufferFreeSpace t"
    using assms(2) by (simp add: word_less_nat_alt)
  then show ?thesis by (simp add: enqueueTxFrame_def)
qed

text \<open>The length \<^verbatim>\<open>buildFrame\<close> returns is at most the size of the buffer it was given.\<close>

lemma buildFrame_frame_len:
  assumes "buildFrame cmd seq payload len outBuf (of_nat TX_FRAME_BUF_SIZE) = Inr (buf, n)"
  shows "unat n \<le> 8192"
  using assms
  by (auto simp add: buildFrame_def Let_def TX_FRAME_BUF_SIZE_def word_le_nat_alt not_less
      split: if_splits option.splits)

lemma enqueueTxFrame_success:
  assumes "\<not> frameLen + 2 > txBufferFreeSpace t"
  shows "enqueueTxFrame t frame frameLen
         = Inr (foldl tx_put (tx_put (tx_put t (ucast (frameLen AND 0xFF))) (ucast (drop_bit 8 frameLen)))
                  (take (unat frameLen) frame))"
  using assms by (simp add: enqueueTxFrame_def Let_def)

lemma scan_frame_skip_byte:
  assumes "MIN_FRAME_LEN \<le> available"
      and "\<not> (rx_buf r ! unat idx = 0xAA \<and> rx_buf r ! ((unat idx + 1) mod RX_BUFFER_SIZE) = 0x55)"
  shows "scan_frame r idx available outFrame
         = scan_frame r (of_nat ((unat idx + 1) mod RX_BUFFER_SIZE)) (available - 1) outFrame"
proof -
  have c: "(rx_buf r ! unat idx = 0xAA \<and> rx_buf r ! ((unat idx + 1) mod RX_BUFFER_SIZE) = 0x55) = False"
    using assms(2) by simp
  show ?thesis
    by (subst scan_frame.simps) (simp only: assms(1) if_True Let_def c if_False)
qed

lemma scan_frame_skip_oversize:
  assumes "MIN_FRAME_LEN \<le> available"
      and "rx_buf r ! unat idx = 0xAA" and "rx_buf r ! ((unat idx + 1) mod RX_BUFFER_SIZE) = 0x55"
      and "unat (2 + 2 + ((ucast (rx_buf r ! ((unat idx + 2) mod RX_BUFFER_SIZE)) :: u16)
                 OR push_bit 8 (ucast (rx_buf r ! ((unat idx + 3) mod RX_BUFFER_SIZE)) :: u16)) + 2)
           > MAX_FRAME_SIZE"
  shows "scan_frame r idx available outFrame
         = scan_frame r (of_nat ((unat idx + 1) mod RX_BUFFER_SIZE)) (available - 1) outFrame"
proof -
  have a: "(available < MIN_FRAME_LEN) = False" using assms(1) by simp
  have c: "(rx_buf r ! unat idx = 0xAA \<and> rx_buf r ! ((unat idx + 1) mod RX_BUFFER_SIZE) = 0x55) = True"
    using assms(2,3) by simp
  show ?thesis
    by (subst scan_frame.simps) (simp only: assms(1,4) if_True Let_def c a if_False)
qed

lemma scan_frame_found:
  assumes "MIN_FRAME_LEN \<le> available"
      and "rx_buf r ! unat idx = 0xAA" and "rx_buf r ! ((unat idx + 1) mod RX_BUFFER_SIZE) = 0x55"
      and "frameSize = 2 + 2 + ((ucast (rx_buf r ! ((unat idx + 2) mod RX_BUFFER_SIZE)) :: u16)
                 OR push_bit 8 (ucast (rx_buf r ! ((unat idx + 3) mod RX_BUFFER_SIZE)) :: u16)) + 2"
      and "unat frameSize \<le> MAX_FRAME_SIZE" and "frameSize \<le> available"
  shows "scan_frame r idx available outFrame
         = Some (foldl (\<lambda>out i. out[i := rx_buf r ! ((unat idx + i) mod RX_BUFFER_SIZE)])
                   outFrame [0..<unat frameSize],
                 frameSize,
                 r\<lparr>rx_head := of_nat ((unat idx + unat frameSize) mod RX_BUFFER_SIZE)\<rparr>)"
proof -
  have a: "(available < MIN_FRAME_LEN) = False" using assms(1) by simp
  have b: "(MAX_FRAME_SIZE < unat frameSize) = False" using assms(5) by simp
  have c: "(available < frameSize) = False" using assms(6) by simp
  have d: "(rx_buf r ! unat idx = 0xAA \<and> rx_buf r ! ((unat idx + 1) mod RX_BUFFER_SIZE) = 0x55) = True"
    using assms(2,3) by simp
  show ?thesis
    by (subst scan_frame.simps)
       (simp only: assms(1) if_True Let_def d a if_False assms(4)[symmetric] b c)
qed

lemma foldl_copy_out:
  assumes "n \<le> length out"
  shows "foldl (\<lambda>out i. out[i := g i]) out [0..<n] = map g [0..<n] @ drop n out"
  using assms
proof (induction n)
  case 0
  then show ?case by simp
next
  case (Suc n)
  then have IH: "foldl (\<lambda>out i. out[i := g i]) out [0..<n] = map g [0..<n] @ drop n out" by simp
  have "foldl (\<lambda>out i. out[i := g i]) out [0..<Suc n] = (map g [0..<n] @ drop n out)[n := g n]"
    by (simp add: IH)
  also have "\<dots> = map g [0..<n] @ (drop n out)[0 := g n]"
    by (simp add: list_update_append)
  also have "(drop n out)[0 := g n] = g n # drop (Suc n) out"
    using Suc.prems by (cases "drop n out") (auto simp add: drop_Suc drop_tl)
  finally show ?case by simp
qed

lemma ring_distance:
  fixes H k :: nat
  assumes "H < 65535" and "k < 65535"
  shows "((H + k) mod 65535 + 65535 - H) mod 65535 = k"
proof (cases "H + k < 65535")
  case True
  then show ?thesis using assms by simp
next
  case False
  then have "(H + k) mod 65535 = H + k - 65535" using assms by (simp add: mod_if)
  then show ?thesis using assms False by simp
qed

lemma resync_extract:
  assumes len: "length payload + 10 \<le> 8192"
      and F: "F = frame_layout cmd seq payload"
      and S: "S = [0xFF, 0xFF, 0xAA, 0x55] @ F @ [0xFF]"
      and H: "H < 65535"
      and hd: "unat (rx_head r1) = H"
      and tl: "unat (rx_tail r1) = (H + length S) mod 65535"
      and B: "\<forall>i < length S. rx_buf r1 ! ((H + i) mod 65535) = S ! i"
      and tf: "length tempFrame = 8192"
  shows "(\<forall>k < 4. scan_frame r1 (of_nat ((H + k) mod 65535)) (of_nat (length S - k)) tempFrame
                   = scan_frame r1 (of_nat ((H + Suc k) mod 65535)) (of_nat (length S - Suc k)) tempFrame)
       \<and> tryExtractOneFrame r1 tempFrame
           = Some (F @ drop (length F) tempFrame, of_nat (length F),
                   r1\<lparr>rx_head := of_nat ((H + 4 + length F) mod 65535)\<rparr>)"
proof -
  define n where "n = length payload"
  define m where "m = length F"
  have m: "m = n + 10" by (simp add: m_def F n_def)
  have m8: "m \<le> 8192" using len m n_def by simp
  have lS: "length S = m + 5" by (simp add: S m_def)
  have N: "RX_BUFFER_SIZE = 65535" by (simp add: RX_BUFFER_SIZE_def)
  define idx :: "nat \<Rightarrow> u16" where "idx k = of_nat ((H + k) mod 65535)" for k
  define av :: "nat \<Rightarrow> u16" where "av k = of_nat (m + 5 - k)" for k
  have uidx: "unat (idx k) = (H + k) mod 65535" for k
    unfolding idx_def by (rule unat_ring_index)
  have uav: "unat (av k) = m + 5 - k" for k
    unfolding av_def using m8 by (simp add: unat_of_nat)
  have nxt: "of_nat ((unat (idx k) + 1) mod RX_BUFFER_SIZE) = idx (Suc k)" for k
  proof -
    have "(unat (idx k) + 1) mod RX_BUFFER_SIZE = (H + Suc k) mod 65535"
      by (simp add: uidx N mod_Suc_eq)
    then show ?thesis by (simp only: idx_def)
  qed
  have avn: "av k - 1 = av (Suc k)" if "k \<le> 4" for k
  proof -
    have "unat (av k - 1) = unat (av (Suc k))"
      using that m by (simp add: uav unat_sub word_le_nat_alt)
    then show ?thesis by (simp only: word_unat_eq_iff)
  qed
  have avmin: "MIN_FRAME_LEN \<le> av k" if "k \<le> 4" for k
    using that m by (simp add: MIN_FRAME_LEN_def word_le_nat_alt uav)
  have byte: "rx_buf r1 ! ((unat (idx k) + j) mod RX_BUFFER_SIZE) = S ! (k + j)" if "k + j < m + 5" for k j
  proof -
    have "((H + k) mod 65535 + j) mod 65535 = (H + (k + j)) mod 65535"
      by (simp add: mod_add_left_eq add.assoc)
    then show ?thesis using B that lS by (simp add: uidx N)
  qed
  have byte0: "rx_buf r1 ! unat (idx k) = S ! k" if "k < m + 5" for k
    using B that lS by (simp add: uidx)
  obtain l0 l1 c0 c1 where Fs: "F = FRAME_HEAD_0 # FRAME_HEAD_1 # l0 # l1 # cmd # seq # payload @ [c0, c1, FRAME_TAIL_0, FRAME_TAIL_1]"
    and lfe: "(ucast l0 :: u16) OR push_bit 8 (ucast l1) = of_nat n + 4"
    unfolding F frame_layout_def Let_def n_def using le16_decode by auto
  have S0: "S ! 0 = 0xFF" "S ! 1 = 0xFF" "S ! 2 = 0xAA" "S ! 3 = 0x55"
           "S ! 4 = 0xAA" "S ! 5 = 0x55" "S ! 6 = l0" "S ! 7 = l1"
    by (simp_all add: S Fs FRAME_HEAD_0_def FRAME_HEAD_1_def eval_nat_numeral)
  have SF: "S ! (4 + i) = F ! i" if "i < m" for i
    using that by (simp add: S nth_append m_def eval_nat_numeral)
  \<comment> \<open>the four skipped positions\<close>
  have skipb: "scan_frame r1 (idx k) (av k) tempFrame = scan_frame r1 (idx (Suc k)) (av (Suc k)) tempFrame"
    if "k \<le> 4" and "S ! k \<noteq> 0xAA" for k
  proof -
    have "scan_frame r1 (idx k) (av k) tempFrame
          = scan_frame r1 (of_nat ((unat (idx k) + 1) mod RX_BUFFER_SIZE)) (av k - 1) tempFrame"
      by (rule scan_frame_skip_byte[OF avmin[OF that(1)]]) (use byte0[of k] that m in simp)
    then show ?thesis by (simp only: nxt avn[OF that(1)])
  qed
  have s0: "scan_frame r1 (idx 0) (av 0) tempFrame = scan_frame r1 (idx (Suc 0)) (av (Suc 0)) tempFrame"
    by (rule skipb) (simp_all add: S0)
  have s1: "scan_frame r1 (idx (Suc 0)) (av (Suc 0)) tempFrame = scan_frame r1 (idx (Suc (Suc 0))) (av (Suc (Suc 0))) tempFrame"
    by (rule skipb) (use S0 in simp_all)
  have s2: "scan_frame r1 (idx 2) (av 2) tempFrame = scan_frame r1 (idx (Suc 2)) (av (Suc 2)) tempFrame"
  proof -
    have big: "MAX_FRAME_SIZE < unat (2 + 2 + ((ucast (0xAA :: u8) :: u16) OR push_bit 8 (ucast (0x55 :: u8) :: u16)) + 2)"
      by (simp add: MAX_FRAME_SIZE_def)
    have "scan_frame r1 (idx 2) (av 2) tempFrame
          = scan_frame r1 (of_nat ((unat (idx 2) + 1) mod RX_BUFFER_SIZE)) (av 2 - 1) tempFrame"
      by (rule scan_frame_skip_oversize)
         (use avmin[of 2] byte0[of 2] byte[of 2 1] byte[of 2 2] byte[of 2 3] S0 m big in simp_all)
    then show ?thesis by (simp only: nxt avn[of 2])
  qed
  have s3: "scan_frame r1 (idx 3) (av 3) tempFrame = scan_frame r1 (idx (Suc 3)) (av (Suc 3)) tempFrame"
    by (rule skipb) (use S0 in simp_all)
  have n2: "Suc (Suc 0) = 2" "Suc 2 = 3" "Suc 3 = 4" by simp_all
  \<comment> \<open>the frame at position 4\<close>
  have fs: "(of_nat m :: u16) = 2 + 2 + ((ucast (rx_buf r1 ! ((unat (idx 4) + 2) mod RX_BUFFER_SIZE)) :: u16)
                 OR push_bit 8 (ucast (rx_buf r1 ! ((unat (idx 4) + 3) mod RX_BUFFER_SIZE)) :: u16)) + 2"
    using byte[of 4 2] byte[of 4 3] S0 m lfe by simp
  have um: "unat (of_nat m :: u16) = m" using m8 by (simp add: unat_of_nat)
  have s4: "scan_frame r1 (idx 4) (av 4) tempFrame
            = Some (foldl (\<lambda>out i. out[i := rx_buf r1 ! ((unat (idx 4) + i) mod RX_BUFFER_SIZE)])
                      tempFrame [0..<unat (of_nat m :: u16)],
                    of_nat m,
                    r1\<lparr>rx_head := of_nat ((unat (idx 4) + unat (of_nat m :: u16)) mod RX_BUFFER_SIZE)\<rparr>)"
    by (rule scan_frame_found[OF avmin[of 4] _ _ fs])
       (use byte0[of 4] byte[of 4 1] S0 m um m8 uav[of 4] in \<open>simp_all add: MAX_FRAME_SIZE_def word_le_nat_alt\<close>)
  have cp: "foldl (\<lambda>out i. out[i := rx_buf r1 ! ((unat (idx 4) + i) mod RX_BUFFER_SIZE)]) tempFrame [0..<m]
            = F @ drop m tempFrame"
  proof -
    have "map (\<lambda>i. rx_buf r1 ! ((unat (idx 4) + i) mod RX_BUFFER_SIZE)) [0..<m] = F"
    proof (rule nth_equalityI)
      show "length (map (\<lambda>i. rx_buf r1 ! ((unat (idx 4) + i) mod RX_BUFFER_SIZE)) [0..<m]) = length F"
        by (simp add: m_def)
    next
      fix i assume "i < length (map (\<lambda>i. rx_buf r1 ! ((unat (idx 4) + i) mod RX_BUFFER_SIZE)) [0..<m])"
      then have i: "i < m" by simp
      then show "map (\<lambda>i. rx_buf r1 ! ((unat (idx 4) + i) mod RX_BUFFER_SIZE)) [0..<m] ! i = F ! i"
        using byte[of 4 i] SF[of i] by simp
    qed
    then show ?thesis using foldl_copy_out[of m tempFrame] m8 tf by simp
  qed
  have hd2: "(unat (idx 4) + m) mod RX_BUFFER_SIZE = (H + 4 + m) mod 65535"
    by (simp add: uidx N mod_add_left_eq)
  have found: "scan_frame r1 (idx 4) (av 4) tempFrame
               = Some (F @ drop m tempFrame, of_nat m, r1\<lparr>rx_head := of_nat ((H + 4 + m) mod 65535)\<rparr>)"
    unfolding s4 um cp hd2 ..
  \<comment> \<open>the entry of tryExtractOneFrame\<close>
  have a0: "(of_nat ((unat (rx_tail r1) + RX_BUFFER_SIZE - unat (rx_head r1)) mod RX_BUFFER_SIZE) :: u16) = av 0"
  proof -
    have "((H + (m + 5)) mod 65535 + 65535 - H) mod 65535 = m + 5"
      by (rule ring_distance) (use H m8 in simp_all)
    then show ?thesis by (simp add: tl hd N lS av_def)
  qed
  have i0: "rx_head r1 = idx 0"
  proof -
    have "unat (rx_head r1) = unat (idx 0)" using hd H by (simp add: uidx)
    then show ?thesis by (simp only: word_unat_eq_iff)
  qed
  have nm: "\<not> av 0 < MIN_FRAME_LEN" using avmin[of 0] by simp
  have ex: "tryExtractOneFrame r1 tempFrame = scan_frame r1 (idx 0) (av 0) tempFrame"
    unfolding tryExtractOneFrame_def Let_def a0 i0[symmetric] using nm by simp
  have steps: "\<forall>k < 4. scan_frame r1 (idx k) (av k) tempFrame = scan_frame r1 (idx (Suc k)) (av (Suc k)) tempFrame"
  proof (intro allI impI)
    fix k :: nat assume "k < 4"
    then consider "k = 0" | "k = 1" | "k = 2" | "k = 3" by linarith
    then show "scan_frame r1 (idx k) (av k) tempFrame = scan_frame r1 (idx (Suc k)) (av (Suc k)) tempFrame"
      using s0 s1 s2 s3 by cases (simp_all add: n2)
  qed
  have e: "tryExtractOneFrame r1 tempFrame
           = Some (F @ drop m tempFrame, of_nat m, r1\<lparr>rx_head := of_nat ((H + 4 + m) mod 65535)\<rparr>)"
    unfolding ex using s0 s1 s2 s3 found by (simp add: n2)
  show ?thesis
    using steps e unfolding idx_def av_def lS m_def by simp
qed

text \<open>
  The bound 65533 in \<open>enqueueTxFrame_no_space\<close> is the largest possible:
  \<open>needed = frameLen + 2\<close> is a \<^verbatim>\<open>uint16_t\<close>, so for a length of 65534, which no frame of
  the program has, it is 0 and the test against the free space passes.
\<close>

lemma enqueueTxFrame_wraps_at_65534:
  "(case enqueueTxFrame
           \<lparr>tx_buf = [10, 0, 0xAA, 0x55, 4, 0, 0x90, 1, 0xAC, 0x70, 0x55, 0xAA] @ replicate 65523 0,
            tx_head = 0, tx_tail = 12\<rparr>
           (replicate 65534 0x11) 65534 of
      Inr t' \<Rightarrow> unat (tx_tail t') = 13 \<and> tx_head t' = 0
                \<and> tx_buf t' ! 0 = 0x11 \<and> tx_buf t' ! 2 = 0x11 \<and> tx_buf t' ! 11 = 0x11
    | Inl e \<Rightarrow> False)"
proof -
  define t where "t = \<lparr>tx_buf = [10, 0, 0xAA, 0x55, 4, 0, 0x90, 1, 0xAC, 0x70, 0x55, 0xAA] @ replicate 65523 (0 :: u8),
            tx_head = 0, tx_tail = 12\<rparr>"
  define t2 where "t2 = tx_put (tx_put t (ucast ((65534 :: u16) AND 0xFF))) (ucast (drop_bit 8 (65534 :: u16)))"
  define xs where "xs = replicate 65534 (0x11 :: u8)"
  define t' where "t' = foldl tx_put t2 xs"
  have z: "(65534 :: u16) + 2 = 0" by (simp add: word_unat_eq_iff unat_word_ariths)
  have g: "\<not> (65534 :: u16) + 2 > txBufferFreeSpace t" unfolding z by simp
  have E: "enqueueTxFrame t xs 65534 = Inr t'"
    unfolding enqueueTxFrame_success[OF g] t'_def t2_def xs_def by simp
  have tl2: "unat (tx_tail t2) = 14" and h2: "tx_head t2 = 0" and lb: "length (tx_buf t2) = 65535"
    by (simp_all add: t2_def tx_put_def t_def TX_BUFFER_SIZE_def)
  note P = foldl_tx_put[of t2 xs, folded t'_def]
  have ne: "xs \<noteq> []" by (simp add: xs_def)
  have tail: "unat (tx_tail t') = 13" using P ne tl2 by (simp add: xs_def)
  have hd: "tx_head t' = 0" using P h2 by simp
  have w: "tx_buf t' ! ((14 + i) mod 65535) = 0x11" if "i < 65534" for i
  proof -
    have "ring_write (tx_buf t2) (unat (tx_tail t2)) xs ! ((unat (tx_tail t2) + i) mod 65535) = xs ! i"
      by (rule ring_write_nth) (use tl2 lb that in \<open>simp_all add: xs_def\<close>)
    then show ?thesis using P tl2 that by (simp add: xs_def)
  qed
  have w0: "tx_buf t' ! 0 = 0x11" using w[of 65521] by simp
  have w2: "tx_buf t' ! 2 = 0x11" using w[of 65523] by simp
  have w11: "tx_buf t' ! 11 = 0x11" using w[of 65532] by simp
  show ?thesis
    using E tail hd w0 w2 w11 unfolding t_def xs_def by simp
qed

section \<open>Claims about the ring buffers\<close>

text \<open>
  Claim C9. For every RX ring and every input of \<open>len\<close> bytes, \<^verbatim>\<open>feedRxBuffer\<close> returns
  \<open>n = min len free\<close>, where \<open>free = (head + capacity - tail - 1) mod capacity\<close> is at
  most \<open>capacity - 1\<close> (and equal to it for an empty ring). It leaves the head alone,
  moves the tail by \<open>n\<close> modulo the capacity, stores the first \<open>n\<close> bytes of the input
  from the old tail on, and changes no other byte of the ring; the bytes after the first
  \<open>n\<close> are dropped.
\<close>

theorem feedRxBuffer_stores_prefix:
  assumes "rx_wf r" and "unat len \<le> length data"
      and "free = (unat (rx_head r) + RX_BUFFER_SIZE - unat (rx_tail r) - 1) mod RX_BUFFER_SIZE"
      and "n = min (unat len) free"
      and "r' = fst (feedRxBuffer r data len)"
  shows "unat (snd (feedRxBuffer r data len)) = n
       \<and> free \<le> RX_BUFFER_SIZE - 1
       \<and> (rx_head r = rx_tail r \<longrightarrow> free = RX_BUFFER_SIZE - 1)
       \<and> rx_head r' = rx_head r
       \<and> unat (rx_tail r') = (unat (rx_tail r) + n) mod RX_BUFFER_SIZE
       \<and> length (rx_buf r') = RX_BUFFER_SIZE
       \<and> (\<forall>i < n. rx_buf r' ! ((unat (rx_tail r) + i) mod RX_BUFFER_SIZE) = data ! i)
       \<and> (\<forall>j < RX_BUFFER_SIZE. (\<forall>i < n. j \<noteq> (unat (rx_tail r) + i) mod RX_BUFFER_SIZE)
              \<longrightarrow> rx_buf r' ! j = rx_buf r ! j)"
  using assms by (rule feedRxBuffer_effect)

theorem feedRxBuffer_stores_prefix_witness:
  "rx_wf \<lparr>rx_buf = replicate 65535 0, rx_head = 2, rx_tail = 65533\<rparr>
   \<and> unat (5 :: u16) \<le> length [1, 2, 3, 4, 5 :: u8]
   \<and> unat (snd (feedRxBuffer \<lparr>rx_buf = replicate 65535 0, rx_head = 2, rx_tail = 65533\<rparr> [1, 2, 3, 4, 5] 5)) = 3
   \<and> rx_head (fst (feedRxBuffer \<lparr>rx_buf = replicate 65535 0, rx_head = 2, rx_tail = 65533\<rparr> [1, 2, 3, 4, 5] 5)) = 2
   \<and> unat (rx_tail (fst (feedRxBuffer \<lparr>rx_buf = replicate 65535 0, rx_head = 2, rx_tail = 65533\<rparr> [1, 2, 3, 4, 5] 5))) = 1
   \<and> rx_buf (fst (feedRxBuffer \<lparr>rx_buf = replicate 65535 0, rx_head = 2, rx_tail = 65533\<rparr> [1, 2, 3, 4, 5] 5)) ! 65533 = 1
   \<and> rx_buf (fst (feedRxBuffer \<lparr>rx_buf = replicate 65535 0, rx_head = 2, rx_tail = 65533\<rparr> [1, 2, 3, 4, 5] 5)) ! 65534 = 2
   \<and> rx_buf (fst (feedRxBuffer \<lparr>rx_buf = replicate 65535 0, rx_head = 2, rx_tail = 65533\<rparr> [1, 2, 3, 4, 5] 5)) ! 0 = 3"
proof -
  define r where "r = \<lparr>rx_buf = replicate 65535 (0 :: u8), rx_head = 2, rx_tail = 65533\<rparr>"
  define r' where "r' = fst (feedRxBuffer r [1, 2, 3, 4, 5] 5)"
  have wf: "rx_wf r" by (simp add: rx_wf_def r_def RX_BUFFER_SIZE_def)
  have len: "unat (5 :: u16) \<le> length [1, 2, 3, 4, 5 :: u8]" by simp
  have free: "(3 :: nat) = (unat (rx_head r) + RX_BUFFER_SIZE - unat (rx_tail r) - 1) mod RX_BUFFER_SIZE"
    by (simp add: r_def RX_BUFFER_SIZE_def)
  have n: "(3 :: nat) = min (unat (5 :: u16)) 3" by simp
  note T = feedRxBuffer_stores_prefix[OF wf len free n r'_def]
  have c: "unat (snd (feedRxBuffer r [1, 2, 3, 4, 5] 5)) = 3" using T by blast
  have h: "rx_head r' = 2" using T by (simp add: r_def)
  have t: "unat (rx_tail r') = 1" using T by (simp add: r_def RX_BUFFER_SIZE_def)
  have w: "\<forall>i < 3. rx_buf r' ! ((unat (rx_tail r) + i) mod RX_BUFFER_SIZE) = [1, 2, 3, 4, 5] ! i"
    using T by blast
  have w0: "rx_buf r' ! 65533 = 1" using w[rule_format, of 0] by (simp add: r_def RX_BUFFER_SIZE_def)
  have w1: "rx_buf r' ! 65534 = 2" using w[rule_format, of 1] by (simp add: r_def RX_BUFFER_SIZE_def)
  have w2: "rx_buf r' ! 0 = 3" using w[rule_format, of 2] by (simp add: r_def RX_BUFFER_SIZE_def)
  show ?thesis
    using wf len c h t w0 w1 w2 unfolding r'_def r_def by simp
qed

text \<open>
  Claim C8. For every TX ring whose next record is complete and has the stored length
  \<open>L\<close>, and every capacity \<open>maxLen < L\<close>, \<^verbatim>\<open>dequeueTxFrame\<close> returns \<open>L\<close>, moves the
  head past the two length bytes and all \<open>L\<close> bytes of the record, copies the first
  \<open>maxLen\<close> bytes of the record to the output buffer and writes nothing behind them.
\<close>

theorem dequeueTxFrame_truncates:
  assumes "tx_wf t"
      and "avail = (unat (tx_tail t) + TX_BUFFER_SIZE - unat (tx_head t)) mod TX_BUFFER_SIZE"
      and "2 \<le> avail"
      and "L = (ucast (tx_buf t ! unat (tx_head t)) :: u16)
               OR push_bit 8 (ucast (tx_buf t ! ((unat (tx_head t) + 1) mod TX_BUFFER_SIZE)) :: u16)"
      and "unat L \<le> avail - 2"
      and "maxLen < L"
      and "unat maxLen \<le> length outFrame"
  shows "\<exists>out t'.
           dequeueTxFrame t outFrame maxLen = (L, out, t')
         \<and> unat (tx_head t') = (unat (tx_head t) + 2 + unat L) mod TX_BUFFER_SIZE
         \<and> tx_tail t' = tx_tail t \<and> tx_buf t' = tx_buf t
         \<and> length out = length outFrame
         \<and> (\<forall>i < unat maxLen. out ! i = tx_buf t ! ((unat (tx_head t) + 2 + i) mod TX_BUFFER_SIZE))
         \<and> drop (unat maxLen) out = drop (unat maxLen) outFrame"
proof -
  have N: "TX_BUFFER_SIZE = 65535" by (simp add: TX_BUFFER_SIZE_def)
  have h: "unat (tx_head t) < 65535" and tl: "unat (tx_tail t) < 65535"
    using assms(1) by (simp_all add: tx_wf_def N)
  define available :: u16 where
    "available = of_nat ((unat (tx_tail t) + TX_BUFFER_SIZE - unat (tx_head t)) mod TX_BUFFER_SIZE)"
  have ua: "unat available = avail"
    unfolding available_def assms(2) N by (rule unat_ring_index)
  have a2: "\<not> available < 2" using ua assms(3) by (simp add: word_less_nat_alt)
  have ua2: "unat (available - 2) = avail - 2"
    using ua assms(3) by (simp add: unat_sub word_le_nat_alt)
  define t2 where "t2 = tx_advance (tx_advance t)"
  have h2: "unat (tx_head t2) = (unat (tx_head t) + 2) mod 65535"
    by (simp add: t2_def mod_Suc_eq)
  have h2': "unat (tx_head t2) < 65535" unfolding h2 by simp
  have b2: "tx_buf t2 = tx_buf t" and tl2: "tx_tail t2 = tx_tail t" by (simp_all add: t2_def)
  have fl: "(ucast (tx_buf t ! unat (tx_head t)) :: u16)
              OR push_bit 8 (ucast (tx_buf (tx_advance t) ! unat (tx_head (tx_advance t))) :: u16) = L"
    using assms(4) by (simp add: N)
  have le: "\<not> L > available - 2" using ua2 assms(5) by (simp add: word_less_nat_alt)
  have cl: "(if L \<le> maxLen then L else maxLen) = maxLen" using assms(6) by auto
  let ?f = "\<lambda>(out, t) i. (out[i := tx_buf t ! unat (tx_head t)], tx_advance t)"
  from foldl_tx_copy[OF h2' assms(7)] obtain o3 t3 where
    3: "foldl ?f (outFrame, t2) [0..<unat maxLen] = (o3, t3)"
    and b3: "tx_buf t3 = tx_buf t2" and tl3: "tx_tail t3 = tx_tail t2"
    and hd3: "unat (tx_head t3) = (unat (tx_head t2) + unat maxLen) mod 65535"
    and ln3: "length o3 = length outFrame"
    and el3: "\<forall>i < unat maxLen. o3 ! i = tx_buf t2 ! ((unat (tx_head t2) + i) mod 65535)"
    and dr3: "drop (unat maxLen) o3 = drop (unat maxLen) outFrame"
    by blast
  define t4 where "t4 = foldl (\<lambda>t i. tx_advance t) t3 [unat maxLen..<unat L]"
  have h3': "unat (tx_head t3) < 65535" unfolding hd3 by simp
  note P4 = foldl_tx_advance[OF h3', of "[unat maxLen..<unat L]", folded t4_def]
  have ml: "unat maxLen < unat L" using assms(6) by (simp add: word_less_nat_alt)
  have hd4: "unat (tx_head t4) = (unat (tx_head t) + 2 + unat L) mod 65535"
  proof -
    have "unat (tx_head t4) = (unat (tx_head t3) + (unat L - unat maxLen)) mod 65535"
      using P4 by simp
    also have "\<dots> = (unat (tx_head t) + 2 + unat maxLen + (unat L - unat maxLen)) mod 65535"
      unfolding hd3 h2 by (simp add: mod_add_left_eq)
    also have "\<dots> = (unat (tx_head t) + 2 + unat L) mod 65535"
      using ml by simp
    finally show ?thesis .
  qed
  have el: "\<forall>i < unat maxLen. o3 ! i = tx_buf t ! ((unat (tx_head t) + 2 + i) mod 65535)"
    using el3 unfolding b2 h2 by (simp add: mod_add_left_eq)
  have D: "dequeueTxFrame t outFrame maxLen = (L, o3, t4)"
    unfolding dequeueTxFrame_def Let_def available_def[symmetric]
    by (simp only: a2 if_False fl le cl t2_def[symmetric] 3 prod.case t4_def[symmetric])
  show ?thesis
    unfolding D N using hd4 P4 b3 tl3 b2 tl2 ln3 el dr3 by simp
qed

theorem dequeueTxFrame_truncates_witness:
  "tx_wf \<lparr>tx_buf = [5, 0, 10, 11, 12, 13, 14] @ replicate 65528 0, tx_head = 0, tx_tail = 7\<rparr>
   \<and> (2 :: nat) \<le> 7 \<and> unat (5 :: u16) \<le> 7 - 2 \<and> (2 :: u16) < 5
   \<and> unat (2 :: u16) \<le> length [9, 9, 9, 9 :: u8]
   \<and> (\<exists>out t'.
         dequeueTxFrame \<lparr>tx_buf = [5, 0, 10, 11, 12, 13, 14] @ replicate 65528 0, tx_head = 0, tx_tail = 7\<rparr>
           [9, 9, 9, 9] 2 = (5, out, t')
       \<and> unat (tx_head t') = 7 \<and> tx_tail t' = 7
       \<and> out ! 0 = 10 \<and> out ! 1 = 11 \<and> drop 2 out = [9, 9])"
proof -
  define t where "t = \<lparr>tx_buf = [5, 0, 10, 11, 12, 13, 14] @ replicate 65528 (0 :: u8), tx_head = 0, tx_tail = 7\<rparr>"
  have wf: "tx_wf t" by (simp add: tx_wf_def t_def TX_BUFFER_SIZE_def)
  have av: "(7 :: nat) = (unat (tx_tail t) + TX_BUFFER_SIZE - unat (tx_head t)) mod TX_BUFFER_SIZE"
    by (simp add: t_def TX_BUFFER_SIZE_def)
  have L: "(5 :: u16) = (ucast (tx_buf t ! unat (tx_head t)) :: u16)
               OR push_bit 8 (ucast (tx_buf t ! ((unat (tx_head t) + 1) mod TX_BUFFER_SIZE)) :: u16)"
    by (simp add: t_def TX_BUFFER_SIZE_def)
  have a: "(2 :: nat) \<le> 7" "unat (5 :: u16) \<le> 7 - 2" "(2 :: u16) < 5"
    "unat (2 :: u16) \<le> length [9, 9, 9, 9 :: u8]" by simp_all
  from dequeueTxFrame_truncates[OF wf av a(1) L a(2) a(3) a(4)]
  obtain out t' where d: "dequeueTxFrame t [9, 9, 9, 9] 2 = (5, out, t')"
    and h: "unat (tx_head t') = (unat (tx_head t) + 2 + unat (5 :: u16)) mod TX_BUFFER_SIZE"
    and tl: "tx_tail t' = tx_tail t"
    and el: "\<forall>i < unat (2 :: u16). out ! i = tx_buf t ! ((unat (tx_head t) + 2 + i) mod TX_BUFFER_SIZE)"
    and dr: "drop (unat (2 :: u16)) out = drop (unat (2 :: u16)) [9, 9, 9, 9]"
    by blast
  have h': "unat (tx_head t') = 7" using h by (simp add: t_def TX_BUFFER_SIZE_def)
  have tl': "tx_tail t' = 7" using tl by (simp add: t_def)
  have e0: "out ! 0 = 10" using el[rule_format, of 0] by (simp add: t_def TX_BUFFER_SIZE_def)
  have e1: "out ! 1 = 11" using el[rule_format, of 1] by (simp add: t_def TX_BUFFER_SIZE_def)
  have dr': "drop 2 out = [9, 9]" using dr by simp
  show ?thesis
    using wf a d h' tl' e0 e1 dr' unfolding t_def by blast
qed

text \<open>
  Claim C5. For every TX ring state and every frame length up to 65533, and so for every
  frame the program queues (\<^verbatim>\<open>app_send_frame_with_seq\<close> passes the frame and the length
  that \<^verbatim>\<open>buildFrame\<close> returned for the \<^verbatim>\<open>TX_FRAME_BUF_SIZE\<close> bytes of \<open>tx_frame_buf\<close>, at
  most 8192): when \<open>frameLen + 2\<close> exceeds the free space of the ring, \<^verbatim>\<open>enqueueTxFrame\<close>
  returns the failure and the ring is the one before the call, array and both cursors.
\<close>

theorem enqueueTxFrame_no_space_unchanged:
  assumes "unat frameLen \<le> 65533
           \<or> buildFrame cmd seq payload len outBuf (of_nat TX_FRAME_BUF_SIZE) = Inr (frame, frameLen)"
      and "unat frameLen + 2 > unat (txBufferFreeSpace t)"
  shows "enqueueTxFrame t frame frameLen = Inl (TxNoSpace, t)"
proof -
  have "unat frameLen \<le> 65533"
    using assms(1) buildFrame_frame_len[of cmd seq payload len outBuf frame frameLen] by auto
  then show ?thesis using assms(2) by (rule enqueueTxFrame_no_space)
qed

theorem enqueueTxFrame_no_space_unchanged_witness:
  "unat (10 :: u16) \<le> 65533
   \<and> unat (10 :: u16) + 2 > unat (txBufferFreeSpace \<lparr>tx_buf = replicate 65535 7, tx_head = 20, tx_tail = 12\<rparr>)
   \<and> enqueueTxFrame \<lparr>tx_buf = replicate 65535 7, tx_head = 20, tx_tail = 12\<rparr>
        [0xAA, 0x55, 4, 0, 0x90, 1, 0xAC, 0x70, 0x55, 0xAA] 10
      = Inl (TxNoSpace, \<lparr>tx_buf = replicate 65535 7, tx_head = 20, tx_tail = 12\<rparr>)"
proof -
  have f: "unat (txBufferFreeSpace \<lparr>tx_buf = replicate 65535 7, tx_head = 20, tx_tail = 12\<rparr>) = 7"
    by (subst txBufferFreeSpace_unat) (simp_all add: tx_wf_def TX_BUFFER_SIZE_def)
  have a: "unat (10 :: u16) \<le> 65533" by simp
  have b: "unat (10 :: u16) + 2 > unat (txBufferFreeSpace \<lparr>tx_buf = replicate 65535 7, tx_head = 20, tx_tail = 12\<rparr>)"
    unfolding f by simp
  from enqueueTxFrame_no_space_unchanged[of 10 _ _ _ _ _ _ "\<lparr>tx_buf = replicate 65535 7, tx_head = 20, tx_tail = 12\<rparr>",
        OF disjI1[OF a] b]
  show ?thesis using a b by blast
qed

text \<open>
  Claim C3 (resync). Let \<open>F\<close> be a frame built by \<^verbatim>\<open>buildFrame\<close>, of at most
  \<open>MAX_FRAME_SIZE\<close> bytes. Feeding the bytes \<open>FF FF AA 55\<close>, then \<open>F\<close>, then \<open>FF\<close> into
  an empty RX ring (head and tail anywhere in the array) stores all of them, and the drain
  loop \<^verbatim>\<open>tryParseFramesFromRx\<close> returns after it has passed exactly one frame to the
  handler, the bytes of \<open>F\<close>; the head then stands four bytes plus the length of \<open>F\<close>
  behind where it was. At each of the four positions before \<open>F\<close>, the spurious
  \<open>AA 55\<close> at the third among them, the scan goes on one byte further with one byte
  less available.
\<close>

theorem resync_delivers_one_frame:
  assumes "unat payloadLen + 10 \<le> unat outBufLen"
      and "unat outBufLen \<le> length outBuf"
      and "length payload = unat payloadLen"
      and "unat payloadLen + 10 \<le> MAX_FRAME_SIZE"
      and "buildFrame cmd seq (Some payload) payloadLen outBuf outBufLen = Inr (fbuf, n)"
      and "F = take (unat n) fbuf"
      and "rx_wf r" and "rx_head r = rx_tail r"
      and "length tempFrame = MAX_FRAME_SIZE"
      and "stream = [0xFF, 0xFF, 0xAA, 0x55] @ F @ [0xFF]"
      and "r1 = fst (feedRxBuffer r stream (of_nat (length stream)))"
      and "H = unat (rx_head r)"
  shows "unat (snd (feedRxBuffer r stream (of_nat (length stream)))) = length stream
       \<and> (\<exists>r2. tryParseFramesFromRx (\<lambda>s f l. s @ [take (unat l) f]) r1 tempFrame [] = Some (r2, [F])
                \<and> unat (rx_head r2) = (H + 4 + length F) mod RX_BUFFER_SIZE
                \<and> rx_tail r2 = rx_tail r1)
       \<and> (\<forall>k < 4. scan_frame r1 (of_nat ((H + k) mod RX_BUFFER_SIZE)) (of_nat (length stream - k)) tempFrame
                  = scan_frame r1 (of_nat ((H + Suc k) mod RX_BUFFER_SIZE)) (of_nat (length stream - Suc k)) tempFrame)"
proof -
  have N: "RX_BUFFER_SIZE = 65535" by (simp add: RX_BUFFER_SIZE_def)
  have H: "H < 65535" and lb: "length (rx_buf r) = 65535"
    using assms(7,12) by (simp_all add: rx_wf_def N)
  have bnd: "unat payloadLen + 10 < 65536" using assms(4) by (simp add: MAX_FRAME_SIZE_def)
  have un: "unat (payloadLen + 10) = unat payloadLen + 10"
    using bnd by (simp add: unat_word_ariths)
  have Bd: "buildFrame cmd seq (Some payload) payloadLen outBuf outBufLen =
        Inr (frame_layout cmd seq (take (unat payloadLen) payload) @ drop (unat payloadLen + 10) outBuf,
             payloadLen + 10)"
    by (rule buildFrame_layout[OF assms(1,2)]) (use assms(3) in simp)
  have F: "F = frame_layout cmd seq payload"
  proof -
    have "fbuf = frame_layout cmd seq payload @ drop (unat payloadLen + 10) outBuf" and "n = payloadLen + 10"
      using assms(5) Bd assms(3) by simp_all
    then show ?thesis using assms(6,3) un by simp
  qed
  have lF: "length F = length payload + 10" by (simp add: F)
  have len: "length payload + 10 \<le> 8192" using assms(3,4) by (simp add: MAX_FRAME_SIZE_def)
  have lS: "length stream = length F + 5" by (simp add: assms(10))
  have uS: "unat (of_nat (length stream) :: u16) = length stream"
    by (rule unat_of_nat16) (use lS lF len in simp)
  have free: "(65534 :: nat) = (unat (rx_head r) + RX_BUFFER_SIZE - unat (rx_tail r) - 1) mod RX_BUFFER_SIZE"
    using assms(8) by (simp add: N)
  have mn: "length stream = min (unat (of_nat (length stream) :: u16)) 65534"
    using uS lS lF len by simp
  have dl: "unat (of_nat (length stream) :: u16) \<le> length stream" using uS by simp
  note E = feedRxBuffer_effect[OF assms(7) dl free mn assms(11)]
  have cnt: "unat (snd (feedRxBuffer r stream (of_nat (length stream)))) = length stream"
    using E by blast
  have hd: "unat (rx_head r1) = H" using E assms(12) by simp
  have tl: "unat (rx_tail r1) = (H + length stream) mod 65535"
    using E assms(8,12) by (simp add: N)
  have B: "\<forall>i < length stream. rx_buf r1 ! ((H + i) mod 65535) = stream ! i"
    using E assms(8,12) by (simp add: N)
  have tf: "length tempFrame = 8192" using assms(9) by (simp add: MAX_FRAME_SIZE_def)
  note X = resync_extract[OF len F assms(10) H hd tl B tf]
  define r2 where "r2 = r1\<lparr>rx_head := of_nat ((H + 4 + length F) mod 65535)\<rparr>"
  define tf' where "tf' = F @ drop (length F) tempFrame"
  have ex1: "tryExtractOneFrame r1 tempFrame = Some (tf', of_nat (length F), r2)"
    using X by (simp add: r2_def tf'_def)
  have uF: "unat (of_nat (length F) :: u16) = length F"
    by (rule unat_of_nat16) (use lF len in simp)
  have tk: "take (unat (of_nat (length F) :: u16)) tf' = F" by (simp add: uF tf'_def)
  have h2: "unat (rx_head r2) = (H + 4 + length F) mod 65535"
    by (simp add: r2_def unat_ring_index)
  have t2: "unat (rx_tail r2) = (H + length stream) mod 65535" using tl by (simp add: r2_def)
  have ex2: "tryExtractOneFrame r2 tf' = None"
  proof -
    have "(H + length stream) mod 65535 = ((H + 4 + length F) mod 65535 + 1) mod 65535"
    proof -
      have "H + length stream = Suc (H + 4 + length F)" by (simp add: lS)
      then show ?thesis by (simp only: mod_Suc_eq Suc_eq_plus1[symmetric])
    qed
    moreover have "(((H + 4 + length F) mod 65535 + 1) mod 65535 + 65535 - (H + 4 + length F) mod 65535) mod 65535 = 1"
      by (rule ring_distance) simp_all
    ultimately have "(unat (rx_tail r2) + RX_BUFFER_SIZE - unat (rx_head r2)) mod RX_BUFFER_SIZE = 1"
      by (simp only: t2 h2 N)
    then show ?thesis
      by (simp add: tryExtractOneFrame_def Let_def MIN_FRAME_LEN_def)
  qed
  have drain: "tryParseFramesFromRx (\<lambda>s f l. s @ [take (unat l) f]) r1 tempFrame [] = Some (r2, [F])"
    apply (subst tryParseFramesFromRx.simps)
    apply (simp only: ex1 option.case prod.case tk append_Nil)
    apply (subst tryParseFramesFromRx.simps)
    apply (simp only: ex2 option.case)
    done
  have "unat (rx_head r2) = (H + 4 + length F) mod RX_BUFFER_SIZE \<and> rx_tail r2 = rx_tail r1"
    using h2 by (simp add: N r2_def)
  then show ?thesis
    using cnt drain X unfolding N by blast
qed

theorem resync_delivers_one_frame_witness:
  "unat (1 :: u16) + 10 \<le> unat (16 :: u16) \<and> unat (16 :: u16) \<le> length (replicate 16 (0 :: u8))
   \<and> length [3 :: u8] = unat (1 :: u16) \<and> unat (1 :: u16) + 10 \<le> MAX_FRAME_SIZE
   \<and> buildFrame 1 2 (Some [3]) 1 (replicate 16 0) 16
       = Inr ([0xAA, 0x55, 5, 0, 1, 2, 3, 0x61, 0x61, 0x55, 0xAA, 0, 0, 0, 0, 0], 11)
   \<and> rx_wf \<lparr>rx_buf = replicate 65535 0, rx_head = 65530, rx_tail = 65530\<rparr>
   \<and> length (replicate 8192 (0 :: u8)) = MAX_FRAME_SIZE
   \<and> unat (snd (feedRxBuffer \<lparr>rx_buf = replicate 65535 0, rx_head = 65530, rx_tail = 65530\<rparr>
          [0xFF, 0xFF, 0xAA, 0x55, 0xAA, 0x55, 5, 0, 1, 2, 3, 0x61, 0x61, 0x55, 0xAA, 0xFF] 16)) = 16
   \<and> (\<exists>r2. tryParseFramesFromRx (\<lambda>s f l. s @ [take (unat l) f])
           (fst (feedRxBuffer \<lparr>rx_buf = replicate 65535 0, rx_head = 65530, rx_tail = 65530\<rparr>
              [0xFF, 0xFF, 0xAA, 0x55, 0xAA, 0x55, 5, 0, 1, 2, 3, 0x61, 0x61, 0x55, 0xAA, 0xFF] 16))
           (replicate 8192 0) []
         = Some (r2, [[0xAA, 0x55, 5, 0, 1, 2, 3, 0x61, 0x61, 0x55, 0xAA]])
       \<and> unat (rx_head r2) = 10)"
proof -
  define r where "r = \<lparr>rx_buf = replicate 65535 (0 :: u8), rx_head = 65530, rx_tail = 65530\<rparr>"
  define F where "F = [0xAA, 0x55, 5, 0, 1, 2, 3, 0x61, 0x61, 0x55, 0xAA :: u8]"
  define fbuf where "fbuf = [0xAA, 0x55, 5, 0, 1, 2, 3, 0x61, 0x61, 0x55, 0xAA, 0, 0, 0, 0, 0 :: u8]"
  define stream where "stream = [0xFF, 0xFF, 0xAA, 0x55] @ F @ [0xFF :: u8]"
  define r1 where "r1 = fst (feedRxBuffer r stream (of_nat (length stream)))"
  have a: "unat (1 :: u16) + 10 \<le> unat (16 :: u16)" "unat (16 :: u16) \<le> length (replicate 16 (0 :: u8))"
    "length [3 :: u8] = unat (1 :: u16)" "unat (1 :: u16) + 10 \<le> MAX_FRAME_SIZE"
    by (simp_all add: MAX_FRAME_SIZE_def)
  have b: "buildFrame 1 2 (Some [3]) 1 (replicate 16 0) 16 = Inr (fbuf, 11)"
    unfolding fbuf_def by code_simp
  have f: "F = take (unat (11 :: u16)) fbuf" by (simp add: F_def fbuf_def)
  have wf: "rx_wf r" by (simp add: rx_wf_def r_def RX_BUFFER_SIZE_def)
  have e: "rx_head r = rx_tail r" by (simp add: r_def)
  have t: "length (replicate 8192 (0 :: u8)) = MAX_FRAME_SIZE" by (simp add: MAX_FRAME_SIZE_def)
  have h: "(65530 :: nat) = unat (rx_head r)" by (simp add: r_def)
  note T = resync_delivers_one_frame[OF a b f wf e t stream_def r1_def h]
  have ls: "(of_nat (length stream) :: u16) = 16" by (simp add: stream_def F_def)
  have c: "unat (snd (feedRxBuffer r stream 16)) = 16"
    using T ls by (simp add: stream_def F_def)
  obtain r2 where d: "tryParseFramesFromRx (\<lambda>s f l. s @ [take (unat l) f]) r1 (replicate 8192 0) [] = Some (r2, [F])"
    and h2: "unat (rx_head r2) = (65530 + 4 + length F) mod RX_BUFFER_SIZE"
    using T by blast
  have h2': "unat (rx_head r2) = 10" using h2 by (simp add: F_def RX_BUFFER_SIZE_def)
  have "\<exists>r2. tryParseFramesFromRx (\<lambda>s f l. s @ [take (unat l) f]) r1 (replicate 8192 0) [] = Some (r2, [F])
          \<and> unat (rx_head r2) = 10"
    using d h2' by blast
  then show ?thesis
    using a b wf t c unfolding r1_def ls r_def stream_def F_def fbuf_def by simp
qed

section \<open>The TX path of the application and the trigger engine\<close>

lemma ucast_and_FF:
  "(ucast ((w :: u16) AND 0xFF) :: u8) = ucast w"
proof -
  have "(0xFF :: u16) = mask 8" by (simp add: mask_eq_exp_minus_1)
  then show ?thesis by (auto simp add: bit_eq_iff bit_simps)
qed

lemma enqueue_room:
  assumes wf: "tx_wf t" and room: "unat frameLen + 2 \<le> unat (txBufferFreeSpace t)"
      and fl: "unat frameLen \<le> length frame"
  shows "\<exists>t'. enqueueTxFrame t frame frameLen = Inr t' \<and> tx_wf t'
              \<and> unat (txBufferFreeSpace t') = unat (txBufferFreeSpace t) - (unat frameLen + 2)"
proof -
  have N: "TX_BUFFER_SIZE = 65535" by (simp add: TX_BUFFER_SIZE_def)
  have h: "unat (tx_head t) < 65535" and tl: "unat (tx_tail t) < 65535"
    and lb: "length (tx_buf t) = 65535"
    using wf by (simp_all add: tx_wf_def N)
  note fr = txBufferFreeSpace_unat[OF wf]
  have fb: "unat (txBufferFreeSpace t) < 65535" unfolding fr by simp
  have b: "unat frameLen + 2 < 65536" using room fb by simp
  have u: "unat (frameLen + 2) = unat frameLen + 2" using b by (simp add: unat_word_ariths)
  have g: "\<not> frameLen + 2 > txBufferFreeSpace t" using room u by (simp add: word_less_nat_alt)
  define t2 where "t2 = tx_put (tx_put t (ucast (frameLen AND 0xFF))) (ucast (drop_bit 8 frameLen))"
  define xs where "xs = take (unat frameLen) frame"
  define t' where "t' = foldl tx_put t2 xs"
  have E: "enqueueTxFrame t frame frameLen = Inr t'"
    unfolding enqueueTxFrame_success[OF g] t'_def t2_def xs_def ..
  have lx: "length xs = unat frameLen" using fl by (simp add: xs_def)
  have t2t: "unat (tx_tail t2) = (unat (tx_tail t) + 2) mod 65535"
    by (simp add: t2_def tx_put_def N unat_ring_index mod_Suc_eq)
  have t2h: "tx_head t2 = tx_head t" by (simp add: t2_def tx_put_def)
  have t2l: "length (tx_buf t2) = 65535" using lb by (simp add: t2_def tx_put_def)
  note P = foldl_tx_put[of t2 xs, folded t'_def]
  have tail: "unat (tx_tail t') = (unat (tx_tail t) + (unat frameLen + 2)) mod 65535"
  proof (cases "xs = []")
    case True
    then have "unat frameLen = 0" using lx by simp
    then show ?thesis using True t2t by (simp add: t'_def)
  next
    case False
    then have "unat (tx_tail t') = ((unat (tx_tail t) + 2) mod 65535 + length xs) mod 65535"
      using P t2t by simp
    also have "\<dots> = (unat (tx_tail t) + 2 + length xs) mod 65535"
      by (rule mod_add_left_eq)
    finally show ?thesis by (simp add: lx add.assoc add.commute)
  qed
  have hd: "tx_head t' = tx_head t" using P t2h by simp
  have ln: "length (tx_buf t') = 65535" using P t2l by simp
  have wf': "tx_wf t'"
    using hd h ln tail by (simp add: tx_wf_def N)
  define H T d where "H = unat (tx_head t)" and "T = unat (tx_tail t)" and "d = unat frameLen + 2"
  have free: "unat (txBufferFreeSpace t) = (H + 65535 - T - 1) mod 65535"
    using fr by (simp add: H_def T_def)
  have free': "unat (txBufferFreeSpace t') = (H + 65535 - (T + d) mod 65535 - 1) mod 65535"
    using txBufferFreeSpace_unat[OF wf'] hd tail by (simp add: H_def T_def d_def)
  have dle: "d \<le> (H + 65535 - T - 1) mod 65535" using room free by (simp add: d_def)
  have HT: "H < 65535" "T < 65535" using h tl by (simp_all add: H_def T_def)
  have wrap: "a mod 65535 = a - 65535" if "65535 \<le> a" and "a < 131070" for a :: nat
  proof -
    have "a mod 65535 = (a - 65535) mod 65535" using that(1) by (rule le_mod_geq)
    also have "\<dots> = a - 65535" using that(2) by simp
    finally show ?thesis .
  qed
  have ar: "(H + 65535 - (T + d) mod 65535 - 1) mod 65535 = (H + 65535 - T - 1) mod 65535 - d"
  proof (cases "T < H")
    case True
    have "(H + 65535 - T - 1) mod 65535 = H + 65535 - T - 1 - 65535"
      by (rule wrap) (use True HT in simp_all)
    then have f: "(H + 65535 - T - 1) mod 65535 = H - T - 1" by simp
    then have lt: "T + d < H" using dle True by simp
    then have m: "(T + d) mod 65535 = T + d" using HT by simp
    have "(H + 65535 - (T + d) - 1) mod 65535 = H + 65535 - (T + d) - 1 - 65535"
      by (rule wrap) (use lt HT in simp_all)
    then show ?thesis unfolding m f by simp
  next
    case False
    have f: "(H + 65535 - T - 1) mod 65535 = H + 65535 - T - 1"
      using False HT by simp
    show ?thesis
    proof (cases "T + d < 65535")
      case True
      then have m: "(T + d) mod 65535 = T + d" by simp
      have "(H + 65535 - (T + d) - 1) mod 65535 = H + 65535 - (T + d) - 1"
        using False HT dle f by simp
      then show ?thesis unfolding m f using dle f by simp
    next
      case F2: False
      have m: "(T + d) mod 65535 = T + d - 65535"
        by (rule wrap) (use F2 HT dle f in simp_all)
      have "(H + 65535 - (T + d - 65535) - 1) mod 65535 = H + 65535 - (T + d - 65535) - 1 - 65535"
        by (rule wrap) (use F2 HT dle f in simp_all)
      then show ?thesis unfolding m f using F2 HT dle f by simp
    qed
  qed
  show ?thesis
    using E wf' free free' ar by (simp add: d_def)
qed

lemma enqueueTxFrame_append:
  assumes wf: "tx_wf t" and room: "unat frameLen + 2 \<le> unat (txBufferFreeSpace t)"
      and fl: "unat frameLen \<le> length frame"
  shows "enqueueTxFrame t frame frameLen = Inr (tx_append t (take (unat frameLen) frame))"
    and "tx_wf (tx_append t (take (unat frameLen) frame))"
    and "unat (txBufferFreeSpace (tx_append t (take (unat frameLen) frame)))
         = unat (txBufferFreeSpace t) - (unat frameLen + 2)"
proof -
  have N: "TX_BUFFER_SIZE = 65535" by (simp add: TX_BUFFER_SIZE_def)
  have h: "unat (tx_head t) < 65535" and tl: "unat (tx_tail t) < 65535"
    and lb: "length (tx_buf t) = 65535"
    using wf by (simp_all add: tx_wf_def N)
  note fr = txBufferFreeSpace_unat[OF wf]
  have fb: "unat (txBufferFreeSpace t) < 65535" unfolding fr by simp
  have b: "unat frameLen + 2 < 65536" using room fb by simp
  have u: "unat (frameLen + 2) = unat frameLen + 2" using b by (simp add: unat_word_ariths)
  have g: "\<not> frameLen + 2 > txBufferFreeSpace t" using room u by (simp add: word_less_nat_alt)
  define xs where "xs = take (unat frameLen) frame"
  define ys where "ys = le16 frameLen @ xs"
  define t' where "t' = foldl tx_put t ys"
  have lx: "length xs = unat frameLen" using fl by (simp add: xs_def)
  have ly: "length ys = unat frameLen + 2" by (simp add: ys_def lx le16_def)
  have E: "enqueueTxFrame t frame frameLen = Inr t'"
    unfolding enqueueTxFrame_success[OF g] t'_def ys_def xs_def
    by (simp add: le16_def ucast_and_FF)
  note P = foldl_tx_put[of t ys, folded t'_def]
  have ne: "ys \<noteq> []" by (simp add: ys_def le16_def)
  have tail: "unat (tx_tail t') = (unat (tx_tail t) + (unat frameLen + 2)) mod 65535"
    using P ne ly by simp
  have hd: "tx_head t' = tx_head t" using P by simp
  have bf: "tx_buf t' = ring_write (tx_buf t) (unat (tx_tail t)) ys" using P by simp
  have fl16: "(of_nat (length xs) :: u16) = frameLen" by (simp add: lx)
  have tw: "tx_tail t' = of_nat ((unat (tx_tail t) + 2 + length xs) mod TX_BUFFER_SIZE)"
  proof -
    have "tx_tail t' = of_nat (unat (tx_tail t'))" by simp
    then show ?thesis unfolding tail N lx by (simp add: add.commute add.left_commute)
  qed
  have eq: "t' = tx_append t xs"
    unfolding tx_append_def fl16 using hd bf tw by (cases t') (simp add: ys_def)
  show "enqueueTxFrame t frame frameLen = Inr (tx_append t (take (unat frameLen) frame))"
    using E eq by (simp add: xs_def)
  have ln: "length (tx_buf t') = 65535" using bf lb by (simp add: ring_write_length)
  have wf': "tx_wf t'"
    using hd h ln tail by (simp add: tx_wf_def N)
  show "tx_wf (tx_append t (take (unat frameLen) frame))"
    using wf' eq by (simp add: xs_def)
  from enqueue_room[OF wf room fl] E
  have "unat (txBufferFreeSpace t') = unat (txBufferFreeSpace t) - (unat frameLen + 2)"
    by auto
  then show "unat (txBufferFreeSpace (tx_append t (take (unat frameLen) frame)))
         = unat (txBufferFreeSpace t) - (unat frameLen + 2)"
    using eq by (simp add: xs_def)
qed

lemma send_result_room:
  assumes "room s (length p + 12 + k)"
  shows "send_result s c q p = frame_queued s c q p"
    and "room (send_result s c q p) k"
proof -
  define n :: u16 where "n = of_nat (length p + 10)"
  define buf where "buf = frame_layout c q p @ drop (length p + 10) (tx_frame_buf s)"
  have wf: "tx_wf (tx_buffer s)" and fr: "length p + 12 + k \<le> unat (txBufferFreeSpace (tx_buffer s))"
    using assms by (simp_all add: room_def)
  have b: "length p + 12 + k < 65536"
    using fr unsigned_less[of "txBufferFreeSpace (tx_buffer s)", where 'a=nat] by simp
  have un: "unat n = length p + 10"
    unfolding n_def using b by (intro unat_of_nat16) simp
  have r: "unat n + 2 \<le> unat (txBufferFreeSpace (tx_buffer s))" using fr un by simp
  have fl: "unat n \<le> length buf" by (simp add: un buf_def)
  have tk: "take (unat n) buf = frame_layout c q p" by (simp add: un buf_def)
  note E = enqueueTxFrame_append[OF wf r fl, unfolded tk]
  have sr: "send_result s c q p = s\<lparr>tx_frame_buf := buf,
       tx_buffer := tx_append (tx_buffer s) (frame_layout c q p),
       log := log s @ [TxQueued c q n]\<rparr>"
    unfolding send_result_def Let_def n_def[symmetric] buf_def[symmetric] E(1) by simp
  show "send_result s c q p = frame_queued s c q p"
    unfolding sr frame_queued_def n_def buf_def ..
  show "room (send_result s c q p) k"
    unfolding sr room_def using E(2,3) fr un by simp
qed

lemma apply_config_length [simp]:
  "length (apply_config n chs r) = length chs"
  by (cases r) simp

lemma foldl_apply_config_length [simp]:
  "length (foldl (apply_config n) chs recs) = length chs"
  by (induction recs arbitrary: chs) simp_all

lemma foldl_apply_config_other:
  assumes "\<forall>r \<in> set recs. fst r < n \<longrightarrow> unat (fst r) \<noteq> c"
  shows "foldl (apply_config n) chs recs ! c = chs ! c"
  using assms
proof (induction recs arbitrary: chs)
  case Nil
  then show ?case by simp
next
  case (Cons r recs)
  obtain ch rate fmt where r: "r = (ch, rate, fmt)" by (cases r)
  have "foldl (apply_config n) (apply_config n chs r) recs ! c = apply_config n chs r ! c"
    using Cons.prems by (intro Cons.IH) simp
  also have "\<dots> = chs ! c" using Cons.prems by (auto simp add: r)
  finally show ?case by simp
qed

lemma foldl_apply_config_last:
  assumes "j < length recs" and "recs ! j = (ch, rate, fmt)" and "ch < n" and "unat ch < length chs"
      and "\<forall>k. j < k \<and> k < length recs \<longrightarrow> fst (recs ! k) \<noteq> ch"
  shows "foldl (apply_config n) chs recs ! unat ch
         = \<lparr>enabled = (if rate > 0 then 1 else 0), sample_rate = rate, format = fmt\<rparr>"
proof -
  define pre where "pre = take j recs"
  define post where "post = drop (Suc j) recs"
  have sp: "recs = pre @ (ch, rate, fmt) # post"
    using id_take_nth_drop[OF assms(1)] assms(2) by (simp add: pre_def post_def)
  define c1 where "c1 = foldl (apply_config n) chs pre"
  have l1: "unat ch < length c1" using assms(4) by (simp add: c1_def)
  have np: "\<forall>r \<in> set post. fst r < n \<longrightarrow> unat (fst r) \<noteq> unat ch"
  proof (intro ballI impI)
    fix r assume "r \<in> set post" "fst r < n"
    then obtain i where i: "i < length post" "post ! i = r" by (auto simp add: in_set_conv_nth)
    have "Suc j + i < length recs" using i(1) by (simp add: post_def)
    moreover have "recs ! (Suc j + i) = r" using i by (simp add: post_def)
    ultimately have "fst r \<noteq> ch" using assms(5)[rule_format, of "Suc j + i"] by simp
    then show "unat (fst r) \<noteq> unat ch" by (simp add: word_unat_eq_iff)
  qed
  have "foldl (apply_config n) chs recs ! unat ch
        = foldl (apply_config n) (apply_config n c1 (ch, rate, fmt)) post ! unat ch"
    by (simp add: sp c1_def)
  also have "\<dots> = apply_config n c1 (ch, rate, fmt) ! unat ch"
    by (rule foldl_apply_config_other[OF np])
  also have "\<dots> = \<lparr>enabled = (if rate > 0 then 1 else 0), sample_rate = rate, format = fmt\<rparr>"
    using assms(3) l1 by simp
  finally show ?thesis .
qed

lemma configure_loop_records:
  assumes "unat offset = 1 + 6 * j0" and "k \<le> (unat payload_len - unat offset) div 6"
  shows "configure_loop k s payload payload_len offset
         = s\<lparr>channels := foldl (apply_config (num_channels s)) (channels s)
                             (map (config_record payload) [j0..<j0 + k])\<rparr>"
  using assms
proof (induction k arbitrary: s offset j0)
  case 0
  then show ?case by simp
next
  case (Suc k)
  have b: "unat payload_len < 65536" using unsigned_less[of payload_len, where 'a=nat] by simp
  have ge: "unat offset + 6 \<le> unat payload_len"
  proof -
    have "1 \<le> (unat payload_len - unat offset) div 6" using Suc.prems(2) by simp
    then have "6 \<le> unat payload_len - unat offset" by simp
    then show ?thesis by simp
  qed
  have u: "unat (offset + 6) = unat offset + 6"
    using ge b by (simp add: unat_word_ariths)
  have u1: "unat (offset + 6) = 1 + 6 * Suc j0" using u Suc.prems(1) by simp
  have k1: "k \<le> (unat payload_len - unat (offset + 6)) div 6"
  proof -
    have "(unat payload_len - unat offset) div 6 = Suc ((unat payload_len - unat (offset + 6)) div 6)"
      using ge unfolding u by (simp add: Suc_diff_le diff_diff_left)
    then show ?thesis using Suc.prems(2) by simp
  qed
  define r where "r = config_record payload j0"
  define s' where "s' = s\<lparr>channels := apply_config (num_channels s) (channels s) r\<rparr>"
  have st: "configure_loop (Suc k) s payload payload_len offset
            = configure_loop k s' payload payload_len (offset + 6)"
    using ge
    by (auto simp add: Let_def s'_def r_def config_record_def Suc.prems(1) add.commute add.left_commute)
  have nc: "num_channels s' = num_channels s" by (simp add: s'_def)
  have up: "[j0..<j0 + Suc k] = j0 # [Suc j0..<Suc j0 + k]"
    by (simp add: upt_conv_Cons)
  show ?case
    unfolding st Suc.IH[OF u1 k1] nc up
    by (simp add: s'_def r_def)
qed

lemma ring_write_no_wrap:
  assumes "t + length xs \<le> length b" and "length b \<le> 65535"
  shows "ring_write b t xs = take t b @ xs @ drop (t + length xs) b"
  using assms
proof (induction xs arbitrary: b t)
  case Nil
  then show ?case by simp
next
  case (Cons x xs)
  have t: "t < length b" using Cons.prems(1) by simp
  have m: "(t + 1) mod 65535 = t + 1 \<or> xs = []"
  proof (cases "xs = []")
    case True then show ?thesis by simp
  next
    case False
    then have "t + 1 < length b" using Cons.prems(1) by (cases xs) simp_all
    then show ?thesis using Cons.prems(2) by simp
  qed
  show ?case
  proof (cases "xs = []")
    case True
    then show ?thesis using t by (simp add: upd_conv_take_nth_drop)
  next
    case False
    then have m1: "Suc t mod 65535 = Suc t" using m by simp
    have "ring_write (b[t := x]) (Suc t) xs
          = take (Suc t) (b[t := x]) @ xs @ drop (Suc t + length xs) (b[t := x])"
      using Cons.prems by (intro Cons.IH) simp_all
    also have "\<dots> = take t b @ (x # xs) @ drop (t + length (x # xs)) b"
      using t by (simp add: take_Suc_conv_app_nth)
    finally show ?thesis by (simp add: m1)
  qed
qed

lemma app_init_room:
  "app_wf (app_init rs)" "room (app_init rs) 65534"
  by (simp_all add: app_wf_def room_def tx_wf_def app_init_def txBufferFreeSpace_empty
      TX_FRAME_BUF_SIZE_def DATA_PAYLOAD_SIZE_def TX_BUFFER_SIZE_def MAX_CHANNELS_def)

lemma room_mono:
  "room s n \<Longrightarrow> m \<le> n \<Longrightarrow> room s m"
  by (simp add: room_def)

lemma frame_queued_empty_ring:
  assumes "tx_buffer s = \<lparr>tx_buf = replicate TX_BUFFER_SIZE 0, tx_head = 0, tx_tail = 0\<rparr>"
      and "length p + 12 < 65535" and "f = frame_layout cmd seq p"
  shows "take (length p + 12) (tx_buf (tx_buffer (frame_queued s cmd seq p)))
           = le16 (of_nat (length p + 10)) @ f"
    and "tx_head (tx_buffer (frame_queued s cmd seq p)) = 0"
    and "tx_tail (tx_buffer (frame_queued s cmd seq p)) = of_nat (length p + 12)"
    and "log (frame_queued s cmd seq p) = log s @ [TxQueued cmd seq (of_nat (length p + 10))]"
    and "take (length p + 10) (tx_frame_buf (frame_queued s cmd seq p)) = f"
    and "channels (frame_queued s cmd seq p) = channels s"
proof -
  let ?xs = "le16 (of_nat (length (frame_layout cmd seq p))) @ frame_layout cmd seq p"
  have l: "length ?xs = length p + 12" by (simp add: le16_def)
  have "ring_write (replicate TX_BUFFER_SIZE 0) 0 ?xs
        = take 0 (replicate TX_BUFFER_SIZE 0) @ ?xs @ drop (0 + length ?xs) (replicate TX_BUFFER_SIZE 0)"
    by (rule ring_write_no_wrap) (use assms(2) l in \<open>simp_all add: TX_BUFFER_SIZE_def\<close>)
  then have "take (length p + 12) (ring_write (replicate TX_BUFFER_SIZE 0) 0 ?xs) = ?xs"
    using l by simp
  then show "take (length p + 12) (tx_buf (tx_buffer (frame_queued s cmd seq p)))
           = le16 (of_nat (length p + 10)) @ f"
    by (simp add: frame_queued_def tx_append_def assms(1,3))
  show "tx_head (tx_buffer (frame_queued s cmd seq p)) = 0"
    by (simp add: frame_queued_def tx_append_def assms(1))
  have "(2 + (length p + 10)) mod TX_BUFFER_SIZE = length p + 12"
    using assms(2) by (simp add: TX_BUFFER_SIZE_def)
  then show "tx_tail (tx_buffer (frame_queued s cmd seq p)) = of_nat (length p + 12)"
    by (simp add: frame_queued_def tx_append_def assms(1) del: of_nat_add)
  show "log (frame_queued s cmd seq p) = log s @ [TxQueued cmd seq (of_nat (length p + 10))]"
    by (simp add: frame_queued_def)
  show "take (length p + 10) (tx_frame_buf (frame_queued s cmd seq p)) = f"
    by (simp add: frame_queued_def assms(3))
  show "channels (frame_queued s cmd seq p) = channels s"
    by (simp add: frame_queued_def)
qed













lemma length_burst_frames [simp]:
  "length (burst_frames q ps) = Suc (length ps)"
  by (induction ps arbitrary: q) simp_all









section \<open>Claims about the ConfigureStream handler and the trigger engine\<close>

text \<open>
  Claim C6, as amended. When the TX ring has room for the response, a ConfigureStream
  request with an empty payload is answered by a Nack frame with the payload
  \<open>[0x01, 0x01]\<close> that echoes the request's sequence number, and the channels stay as they
  are. A request with a non-empty payload is answered by an Ack frame that echoes the
  sequence number, also when the count byte announces more records than the payload
  holds: the \<open>m\<close> complete records that are there, at most as many as announced, are
  applied in order and the rest is ignored. Applied means: a channel named by a record
  (with an id below \<open>num_channels\<close>) and by no later one has that record's rate and format
  and is enabled exactly when the rate is not 0, and a channel that no record names is
  unchanged. Answered means: the frame is laid out in \<open>tx_frame_buf\<close>, its record appended to
  the TX ring, and the line logged.
\<close>

theorem configure_stream_response:
  assumes "length (tx_frame_buf s) = TX_FRAME_BUF_SIZE"
      and "room s 14"
      and "unat payload_len \<le> length payload"
      and "unat (num_channels s) \<le> length (channels s)"
      and "m = min (unat (payload ! 0)) ((unat payload_len - 1) div 6)"
      and "s' = app_handle_command s CMD_CONFIGURE_STREAM seq payload payload_len"
  shows "(payload_len = 0 \<longrightarrow> s' = frame_queued s CMD_NACK seq [0x01, 0x01])
       \<and> (payload_len \<noteq> 0 \<longrightarrow>
            s' = frame_queued
                   (s\<lparr>channels := foldl (apply_config (num_channels s)) (channels s)
                                      (map (config_record payload) [0..<m])\<rparr>)
                   CMD_ACK seq []
          \<and> length (channels s') = length (channels s)
          \<and> (\<forall>j ch rate fmt.
                j < m \<and> config_record payload j = (ch, rate, fmt) \<and> ch < num_channels s
                \<and> (\<forall>k. j < k \<and> k < m \<longrightarrow> fst (config_record payload k) \<noteq> ch)
                \<longrightarrow> channels s' ! unat ch
                    = \<lparr>enabled = (if rate > 0 then 1 else 0), sample_rate = rate, format = fmt\<rparr>)
          \<and> (\<forall>c. (\<forall>j < m. fst (config_record payload j) < num_channels s
                             \<longrightarrow> unat (fst (config_record payload j)) \<noteq> c)
                   \<longrightarrow> channels s' ! c = channels s ! c))"
proof (intro conjI impI)
  assume z: "payload_len = 0"
  have "room s (length [0x01, 0x01 :: u8] + 12 + 0)" using assms(2) by simp
  from send_result_room(1)[OF this]
  show "s' = frame_queued s CMD_NACK seq [0x01, 0x01]"
    unfolding assms(6) handle_configure_stream[OF assms(1)] using z by simp
next
  assume nz: "payload_len \<noteq> 0"
  define recs where "recs = map (config_record payload) [0..<m]"
  define c where "c = s\<lparr>channels := foldl (apply_config (num_channels s)) (channels s) recs\<rparr>"
  have n1: "\<not> payload_len < 1" using nz by (simp add: word_less_1)
  have cl: "configure_loop (unat (payload ! 0)) s payload payload_len 1 = c"
  proof -
    have "configure_loop (unat (payload ! 0)) s payload payload_len 1
          = configure_loop (min (unat (payload ! 0)) ((unat payload_len - unat (1 :: u16)) div 6))
              s payload payload_len 1"
      by (rule configure_loop_present)
    also have "\<dots> = configure_loop m s payload payload_len 1"
      by (simp add: assms(5))
    also have "\<dots> = s\<lparr>channels := foldl (apply_config (num_channels s)) (channels s)
                             (map (config_record payload) [0..<0 + m])\<rparr>"
      by (rule configure_loop_records) (simp_all add: assms(5))
    finally show ?thesis by (simp add: c_def recs_def)
  qed
  have rc: "room c (length ([] :: u8 list) + 12 + 0)"
    using assms(2) by (simp add: room_def c_def)
  have S: "s' = frame_queued c CMD_ACK seq []"
    unfolding assms(6) handle_configure_stream[OF assms(1)] cl
    using n1 send_result_room(1)[OF rc] by simp
  show "s' = frame_queued
                   (s\<lparr>channels := foldl (apply_config (num_channels s)) (channels s)
                                      (map (config_record payload) [0..<m])\<rparr>)
                   CMD_ACK seq []"
    using S by (simp add: c_def recs_def)
  have ch: "channels s' = foldl (apply_config (num_channels s)) (channels s) recs"
    unfolding S by (simp add: frame_queued_def c_def)
  show "length (channels s') = length (channels s)" unfolding ch by simp
  have lr: "length recs = m" by (simp add: recs_def)
  have nr: "recs ! j = config_record payload j" if "j < m" for j
    using that by (simp add: recs_def)
  show "\<forall>j ch rate fmt.
                j < m \<and> config_record payload j = (ch, rate, fmt) \<and> ch < num_channels s
                \<and> (\<forall>k. j < k \<and> k < m \<longrightarrow> fst (config_record payload k) \<noteq> ch)
                \<longrightarrow> channels s' ! unat ch
                    = \<lparr>enabled = (if rate > 0 then 1 else 0), sample_rate = rate, format = fmt\<rparr>"
  proof (intro allI impI, elim conjE)
    fix j ch rate fmt
    assume j: "j < m" and r: "config_record payload j = (ch, rate, fmt)" and lt: "ch < num_channels s"
      and later: "\<forall>k. j < k \<and> k < m \<longrightarrow> fst (config_record payload k) \<noteq> ch"
    have "unat ch < unat (num_channels s)" using lt by (simp add: word_less_nat_alt)
    then have in_range: "unat ch < length (channels s)" using assms(4) by simp
    show "channels s' ! unat ch
          = \<lparr>enabled = (if rate > 0 then 1 else 0), sample_rate = rate, format = fmt\<rparr>"
      unfolding ch
    proof (rule foldl_apply_config_last[where j=j])
      show "j < length recs" using j lr by simp
      show "recs ! j = (ch, rate, fmt)" using nr[OF j] r by simp
      show "ch < num_channels s" by (rule lt)
      show "unat ch < length (channels s)" by (rule in_range)
      show "\<forall>k. j < k \<and> k < length recs \<longrightarrow> fst (recs ! k) \<noteq> ch"
        using later nr lr by simp
    qed
  qed
  show "\<forall>c. (\<forall>j < m. fst (config_record payload j) < num_channels s
                             \<longrightarrow> unat (fst (config_record payload j)) \<noteq> c)
                   \<longrightarrow> channels s' ! c = channels s ! c"
  proof (intro allI impI)
    fix c
    assume a: "\<forall>j < m. fst (config_record payload j) < num_channels s
                             \<longrightarrow> unat (fst (config_record payload j)) \<noteq> c"
    show "channels s' ! c = channels s ! c"
      unfolding ch
    proof (rule foldl_apply_config_other, intro ballI impI)
      fix r assume "r \<in> set recs" "fst r < num_channels s"
      then obtain j where "j < m" "r = config_record payload j"
        by (auto simp add: recs_def)
      then show "unat (fst r) \<noteq> c" using a \<open>fst r < num_channels s\<close> by simp
    qed
  qed
qed

theorem configure_stream_response_witness:
  "length (tx_frame_buf (app_init rand_zero)) = TX_FRAME_BUF_SIZE
   \<and> room (app_init rand_zero) 14
   \<and> log (app_handle_command (app_init rand_zero) CMD_CONFIGURE_STREAM 9 [] 0)
       = [TxQueued CMD_NACK 9 12]
   \<and> take 14 (tx_buf (tx_buffer (app_handle_command (app_init rand_zero) CMD_CONFIGURE_STREAM 9 [] 0)))
       = [12, 0, 0xAA, 0x55, 6, 0, 0x91, 9, 1, 1, 0x3C, 0x8A, 0x55, 0xAA]
   \<and> tx_tail (tx_buffer (app_handle_command (app_init rand_zero) CMD_CONFIGURE_STREAM 9 [] 0)) = 14
   \<and> channels (app_handle_command (app_init rand_zero) CMD_CONFIGURE_STREAM 9 [] 0)
       = channels (app_init rand_zero)
   \<and> log (app_handle_command (app_init rand_zero) CMD_CONFIGURE_STREAM 9
             [3, 0, 0, 0, 0, 0, 2, 1, 0x88, 0x13, 0, 0, 2] 13)
       = [TxQueued CMD_ACK 9 10]
   \<and> take 12 (tx_buf (tx_buffer (app_handle_command (app_init rand_zero) CMD_CONFIGURE_STREAM 9
             [3, 0, 0, 0, 0, 0, 2, 1, 0x88, 0x13, 0, 0, 2] 13)))
       = [10, 0, 0xAA, 0x55, 4, 0, 0x90, 9, 0xAD, 0xB6, 0x55, 0xAA]
   \<and> tx_tail (tx_buffer (app_handle_command (app_init rand_zero) CMD_CONFIGURE_STREAM 9
             [3, 0, 0, 0, 0, 0, 2, 1, 0x88, 0x13, 0, 0, 2] 13)) = 12
   \<and> channels (app_handle_command (app_init rand_zero) CMD_CONFIGURE_STREAM 9
             [3, 0, 0, 0, 0, 0, 2, 1, 0x88, 0x13, 0, 0, 2] 13)
       = [\<lparr>enabled = 0, sample_rate = 0, format = 2\<rparr>,
          \<lparr>enabled = 1, sample_rate = 5000, format = 2\<rparr>]
         @ replicate 6 \<lparr>enabled = 0, sample_rate = 0, format = 0\<rparr>"
proof -
  define s where "s = app_init rand_zero"
  define P :: "u8 list" where "P = [3, 0, 0, 0, 0, 0, 2, 1, 0x88, 0x13, 0, 0, 2]"
  have l: "length (tx_frame_buf s) = TX_FRAME_BUF_SIZE"
    using app_init_room(1)[of rand_zero] by (simp add: s_def app_wf_def)
  have r: "room s 14" unfolding s_def by (rule room_mono[OF app_init_room(2)]) simp
  have nc: "unat (num_channels s) \<le> length (channels s)" by (simp add: s_def app_init_def)
  have tb: "tx_buffer s = \<lparr>tx_buf = replicate TX_BUFFER_SIZE 0, tx_head = 0, tx_tail = 0\<rparr>"
    and lg: "log s = []"
    by (simp_all add: s_def app_init_def)
  have fN: "[0xAA, 0x55, 6, 0, 0x91, 9, 1, 1, 0x3C, 0x8A, 0x55, 0xAA] = frame_layout CMD_NACK 9 [1, 1]"
    by code_simp
  have fA: "[0xAA, 0x55, 4, 0, 0x90, 9, 0xAD, 0xB6, 0x55, 0xAA] = frame_layout CMD_ACK 9 []"
    by code_simp
  have e1: "unat (0 :: u16) \<le> length ([] :: u8 list)" by simp
  have e2: "unat (13 :: u16) \<le> length P" by (simp add: P_def)
  have N: "app_handle_command s CMD_CONFIGURE_STREAM 9 [] 0 = frame_queued s CMD_NACK 9 [1, 1]"
    using configure_stream_response[OF l r e1 nc refl refl, of 9] by simp
  have m: "min (unat (P ! 0)) ((unat (13 :: u16) - 1) div 6) = 2" by (simp add: P_def)
  have A: "app_handle_command s CMD_CONFIGURE_STREAM 9 P 13
           = frame_queued
               (s\<lparr>channels := foldl (apply_config (num_channels s)) (channels s)
                                  (map (config_record P) [0..<2])\<rparr>)
               CMD_ACK 9 []"
    using configure_stream_response[OF l r e2 nc m[symmetric] refl, of 9] by simp
  have c0: "channels s = [\<lparr>enabled = 1, sample_rate = 10000, format = 1\<rparr>,
                          \<lparr>enabled = 1, sample_rate = 10000, format = 1\<rparr>]
                         @ replicate 6 \<lparr>enabled = 0, sample_rate = 0, format = 0\<rparr>"
    and n0: "num_channels s = 2"
    by (simp_all add: s_def app_init_def)
  have rs: "map (config_record P) [0..<2] = [(0, 0, 2), (1, 5000, 2)]"
    unfolding P_def by code_simp
  have cs: "foldl (apply_config (num_channels s)) (channels s) (map (config_record P) [0..<2])
            = [\<lparr>enabled = 0, sample_rate = 0, format = 2\<rparr>,
               \<lparr>enabled = 1, sample_rate = 5000, format = 2\<rparr>]
              @ replicate 6 \<lparr>enabled = 0, sample_rate = 0, format = 0\<rparr>"
    unfolding c0 n0 rs by code_simp
  note QN = frame_queued_empty_ring[OF tb _ fN, simplified]
  have tb': "tx_buffer (s\<lparr>channels := foldl (apply_config (num_channels s)) (channels s)
                                  (map (config_record P) [0..<2])\<rparr>)
             = \<lparr>tx_buf = replicate TX_BUFFER_SIZE 0, tx_head = 0, tx_tail = 0\<rparr>"
    using tb by simp
  note QA = frame_queued_empty_ring[OF tb' _ fA, simplified]
  show ?thesis
    unfolding s_def[symmetric] P_def[symmetric] N A
    using l r QN(1,3,4,6) QA(1,3,4,6) lg cs
    by (simp add: le16_def)
qed

text \<open>
  Claim C6 as stated fails: a request whose count byte announces two records and whose
  payload holds one is answered by Ack.
\<close>

theorem configure_stream_short_counterexample:
  "log (app_handle_command (app_init rand_zero) CMD_CONFIGURE_STREAM 9 [2, 0, 0x10, 0x27, 0, 0, 1] 7)
     = [TxQueued CMD_ACK 9 10]"
proof -
  have i: "length (tx_frame_buf (app_init rand_zero)) = TX_FRAME_BUF_SIZE"
    by (simp add: app_init_def)
  let ?s = "configure_loop (unat ([2, 0, 0x10, 0x27, 0, 0, 1 :: u8] ! 0)) (app_init rand_zero)
              [2, 0, 0x10, 0x27, 0, 0, 1] 7 1"
  have h: "app_handle_command (app_init rand_zero) CMD_CONFIGURE_STREAM 9 [2, 0, 0x10, 0x27, 0, 0, 1] 7
           = send_result ?s CMD_ACK 9 []"
    unfolding handle_configure_stream[OF i] by simp
  have t: "tx_buffer ?s = \<lparr>tx_buf = replicate TX_BUFFER_SIZE 0, tx_head = 0, tx_tail = 0\<rparr>"
    by (simp add: configure_loop_frame app_init_def)
  have g: "log ?s = []" by (simp add: configure_loop_frame app_init_def)
  have "log (send_result ?s CMD_ACK 9 []) = log ?s @ [TxQueued CMD_ACK 9 (of_nat (length ([] :: u8 list) + 10))]"
    by (rule send_result_queued) (simp add: configure_loop_frame app_init_def txBufferFreeSpace_empty)
  then show ?thesis unfolding h g by simp
qed



end
